theory Spec2Isabelle
  imports Main "HOL-Library.Word"
begin

unbundle bit_operations_syntax

section \<open>Bytes and machine integers\<close>

text \<open>
  A Go \<open>[]byte\<close> is a list of bytes; \<open>int64\<close> is a 64-bit word read as two's
  complement with \<open>sint\<close>. Go's \<open>int\<close> is 64 bits wide in this program: \<open>Run\<close>
  stores \<open>math.MaxInt64\<close> in an \<open>int\<close> variable, which only compiles there.
\<close>

type_synonym byte = "8 word"
type_synonym bytes = "byte list"
type_synonym int64 = "64 word"

text \<open>\<open>[32]byte\<close>, the result type of \<open>sha256.Sum256\<close>; \<open>Rep_byte32 h\<close> is \<open>h[:]\<close>.\<close>

typedef byte32 = "{xs :: bytes. length xs = 32}"
  by (rule exI [of _ "replicate 32 0"]) simp

setup_lifting type_definition_byte32

text \<open>\<open>var hash [32]byte\<close>: the zero value of the array type.\<close>

lift_definition zero32 :: byte32 is "replicate 32 0"
  by simp

text \<open>
  The digest \<open>sha256.Sum256\<close> belongs to Go's standard library, not to this repository;
  every function that calls it takes it as its first argument.
\<close>

type_synonym digest = "bytes \<Rightarrow> byte32"

subsection \<open>Standard-library helpers\<close>

text \<open>\<open>strconv.FormatInt(i, 10)\<close>: the decimal text of a signed 64-bit integer.\<close>

definition digit :: "nat \<Rightarrow> byte" where
  "digit d = of_nat (48 + d)"

fun digits10 :: "nat \<Rightarrow> bytes" where
  "digits10 n = (if n < 10 then [digit n] else digits10 (n div 10) @ [digit (n mod 10)])"

declare digits10.simps [simp del]

definition FormatInt10 :: "int64 \<Rightarrow> bytes" where
  "FormatInt10 i = (if sint i < 0 then 45 # digits10 (nat (- sint i)) else digits10 (nat (sint i)))"

text \<open>
  What "the decimal ASCII text of an integer" means, independently of \<open>FormatInt10\<close>:
  an optional minus sign followed by digits \<open>0\<close> to \<open>9\<close>, valued in base ten.
\<close>

definition is_digit :: "byte \<Rightarrow> bool" where
  "is_digit c \<longleftrightarrow> 48 \<le> c \<and> c \<le> 57"

definition is_decimal :: "bytes \<Rightarrow> bool" where
  "is_decimal s \<longleftrightarrow>
     (case s of [] \<Rightarrow> False
      | c # ds \<Rightarrow> if c = 45 then ds \<noteq> [] \<and> list_all is_digit ds else list_all is_digit s)"

definition decimal_nat :: "bytes \<Rightarrow> int" where
  "decimal_nat ds = foldl (\<lambda>acc d. acc * 10 + (uint d - 48)) 0 ds"

definition decimal_value :: "bytes \<Rightarrow> int" where
  "decimal_value s = (case s of [] \<Rightarrow> 0 | c # ds \<Rightarrow> if c = 45 then - decimal_nat ds else decimal_nat s)"

text \<open>\<open>bytes.Join(s, sep)\<close>: the elements of \<open>s\<close> with \<open>sep\<close> between them.\<close>

fun Join :: "bytes list \<Rightarrow> bytes \<Rightarrow> bytes" where
  "Join [] sep = []"
| "Join [x] sep = x"
| "Join (x # y # ys) sep = x @ sep @ Join (y # ys) sep"

text \<open>\<open>big.Int.SetBytes\<close>: a byte string read as a big-endian unsigned integer.\<close>

definition SetBytes :: "bytes \<Rightarrow> int" where
  "SetBytes buf = foldl (\<lambda>acc b. acc * 256 + uint b) 0 buf"

text \<open>\<open>big.Int.Cmp\<close>: \<open>-1\<close>, \<open>0\<close> or \<open>1\<close>.\<close>

definition Cmp :: "int \<Rightarrow> int \<Rightarrow> int" where
  "Cmp x y = (if x < y then - 1 else if x = y then 0 else 1)"

section \<open>Blocks and proof of work\<close>

definition targetBits :: nat where
  "targetBits = 24"

record Block =
  Timestamp :: int64
  Data :: bytes
  PrevBlockHash :: bytes
  Hash :: bytes
  Nonce :: int64

record ProofOfWork =
  block :: Block
  target :: int

definition NewProofOfWork :: "Block \<Rightarrow> ProofOfWork" where
  "NewProofOfWork b = \<lparr>block = b, target = push_bit (256 - targetBits) 1\<rparr>"

definition prepareData :: "ProofOfWork \<Rightarrow> int64 \<Rightarrow> bytes" where
  "prepareData pow nonce =
     Join [PrevBlockHash (block pow),
           Data (block pow),
           FormatInt10 (Timestamp (block pow)),
           FormatInt10 nonce,
           FormatInt10 (of_nat targetBits)] []"

definition maxNonce :: int64 where
  "maxNonce = 0x7FFFFFFFFFFFFFFF"

text \<open>Below \<open>maxNonce\<close> the increment \<open>nonce++\<close> does not wrap.\<close>

lemma sint_succ_below_max:
  fixes n :: int64
  assumes "n <s maxNonce"
  shows "sint (n + 1) = sint n + 1"
proof -
  have "sint n < 2 ^ 63 - 1"
    using assms by (simp add: word_sless_alt maxNonce_def)
  moreover have "- (2 ^ 63) \<le> sint n"
    using sint_ge [of n] by simp
  ultimately show ?thesis
    by (simp add: sint_word_add signed_take_bit_int_eq_self)
qed

text \<open>
  The loop of \<open>Run\<close>, from the state (\<open>nonce\<close>, \<open>hash\<close>) at the loop head: \<open>break\<close>
  leaves with the nonce that passed and its digest, \<open>nonce++\<close> goes round again, and a
  false loop condition leaves with whatever the two variables hold.
\<close>

function Run_loop :: "digest \<Rightarrow> ProofOfWork \<Rightarrow> int64 \<Rightarrow> byte32 \<Rightarrow> int64 \<times> byte32" where
  "Run_loop Sum256 pow nonce hash =
     (if nonce <s maxNonce then
        let data = prepareData pow nonce;
            hash' = Sum256 data;
            hashInt = SetBytes (Rep_byte32 hash')
        in if Cmp hashInt (target pow) = - 1 then (nonce, hash')
           else Run_loop Sum256 pow (nonce + 1) hash'
      else (nonce, hash))"
  by pat_completeness auto

termination
  by (relation "measure (\<lambda>(Sum256, pow, nonce, hash). nat (2 ^ 63 - sint nonce))")
     (auto simp: sint_succ_below_max word_sless_alt maxNonce_def)

declare Run_loop.simps [simp del]

definition Run :: "digest \<Rightarrow> ProofOfWork \<Rightarrow> int64 \<times> bytes" where
  "Run Sum256 pow = (case Run_loop Sum256 pow 0 zero32 of (nonce, hash) \<Rightarrow> (nonce, Rep_byte32 hash))"

definition Validate :: "digest \<Rightarrow> ProofOfWork \<Rightarrow> bool" where
  "Validate Sum256 pow =
     (let data = prepareData pow (Nonce (block pow));
          hash = Sum256 data;
          hashInt = SetBytes (Rep_byte32 hash)
      in Cmp hashInt (target pow) = - 1)"

text \<open>
  \<open>NewBlock\<close>; \<open>now\<close> is the value of \<open>time.Now().Unix()\<close>, and \<open>bytes_of data\<close> is
  the conversion \<open>[]byte(data)\<close> of a Go string to its bytes.
\<close>

definition bytes_of :: "string \<Rightarrow> bytes" where
  "bytes_of s = map (\<lambda>c. of_nat (of_char c)) s"

definition NewBlock :: "digest \<Rightarrow> int64 \<Rightarrow> string \<Rightarrow> bytes \<Rightarrow> Block" where
  "NewBlock Sum256 now data prevBlockHash =
     (let b = \<lparr>Timestamp = now, Data = bytes_of data, PrevBlockHash = prevBlockHash, Hash = [], Nonce = 0\<rparr>;
          pow = NewProofOfWork b;
          (nonce, hash) = Run Sum256 pow
      in b\<lparr>Hash := hash, Nonce := nonce\<rparr>)"

definition NewGenesisBlock :: "digest \<Rightarrow> int64 \<Rightarrow> Block" where
  "NewGenesisBlock Sum256 now = NewBlock Sum256 now ''Genesis Block'' []"

text \<open>
  Two names used to state the properties: the digest computed for a nonce, as a byte
  string, and whether it lies strictly below the target.
\<close>

definition digest_of :: "digest \<Rightarrow> ProofOfWork \<Rightarrow> int64 \<Rightarrow> bytes" where
  "digest_of Sum256 pow n = Rep_byte32 (Sum256 (prepareData pow n))"

definition passes :: "digest \<Rightarrow> ProofOfWork \<Rightarrow> int64 \<Rightarrow> bool" where
  "passes Sum256 pow n \<longleftrightarrow> SetBytes (digest_of Sum256 pow n) < target pow"


section \<open>The gob encoding of a block\<close>

text \<open>
  \<open>Serialize\<close> and \<open>DeseralizeBlock\<close> call \<open>encoding/gob\<close> of the standard library with a
  fresh encoder or decoder each time. A fresh encoder given a \<open>Block\<close> writes two
  length-prefixed messages: the definition of the struct type \<open>Block\<close> under the first
  user type id, 65, and then the value. In the value, a field that is zero (the integer
  0, a byte slice of length 0) is left out; every field written is preceded by the
  distance of its number from the number of the field written before it, and a zero
  distance ends the struct.

  The decoder below is gob's decoder for the destination type \<open>Block\<close>, on streams whose
  type section is that definition of \<open>Block\<close>. On any other type section gob goes on to
  match the fields it receives to those of \<open>Block\<close> by name; this model answers
  \<open>OtherStream\<close> there.
\<close>

datatype gobError =
    EOF
  | ErrUnexpectedEOF
  | errBadUint
  | errBadCount
  | errBadType
  | errRange
  | InvalidUintLength
  | BadSliceLength
  | NegativeDelta
  | MessageTooBig
  | OtherStream

type_synonym uint64 = "64 word"

text \<open>The bound on the length of a message, on a 64-bit platform.\<close>

definition tooBig :: nat where
  "tooBig = 2 ^ 33"

subsection \<open>Encoder\<close>

text \<open>The bytes of a number, most significant first, without leading zero bytes.\<close>

fun be_bytes :: "nat \<Rightarrow> bytes" where
  "be_bytes n = (if n = 0 then [] else be_bytes (n div 256) @ [of_nat (n mod 256)])"

declare be_bytes.simps [simp del]

text \<open>
  \<open>encodeUint\<close>: a value up to 127 is one byte; a larger one is its bytes, preceded by
  a byte holding the negated number of them.
\<close>

definition encodeUint :: "uint64 \<Rightarrow> bytes" where
  "encodeUint x =
     (if x \<le> 0x7F then [ucast x]
      else let bs = be_bytes (unat x) in (- of_nat (length bs)) # bs)"

text \<open>
  \<open>encodeInt\<close>: the sign moves to bit 0; a negative value is complemented first.
\<close>

definition encodeInt :: "int64 \<Rightarrow> bytes" where
  "encodeInt i = encodeUint (if sint i < 0 then push_bit 1 (NOT i) OR 1 else push_bit 1 i)"

definition encodeString :: "string \<Rightarrow> bytes" where
  "encodeString s = encodeUint (of_nat (length s)) @ bytes_of s"

text \<open>
  The field encoders, from the number of the field written last: they return the
  bytes written and the number of the field written last afterwards.
\<close>

definition encInt :: "int \<Rightarrow> int \<Rightarrow> int64 \<Rightarrow> bytes \<times> int" where
  "encInt fieldnum field v =
     (if v = 0 then ([], fieldnum)
      else (encodeUint (of_int (field - fieldnum)) @ encodeInt v, field))"

definition encUint8Array :: "int \<Rightarrow> int \<Rightarrow> bytes \<Rightarrow> bytes \<times> int" where
  "encUint8Array fieldnum field b =
     (if length b = 0 then ([], fieldnum)
      else (encodeUint (of_int (field - fieldnum)) @ encodeUint (of_nat (length b)) @ b, field))"

definition encodeStruct :: "Block \<Rightarrow> bytes" where
  "encodeStruct b =
     (let (o0, f0) = encInt (- 1) 0 (Timestamp b);
          (o1, f1) = encUint8Array f0 1 (Data b);
          (o2, f2) = encUint8Array f1 2 (PrevBlockHash b);
          (o3, f3) = encUint8Array f2 3 (Hash b);
          (o4, f4) = encInt f3 4 (Nonce b)
      in o0 @ o1 @ o2 @ o3 @ o4 @ encodeUint 0)"

text \<open>
  The definition of a struct type on the wire: a \<open>wireType\<close> whose field \<open>StructT\<close>
  (number 2) is set, holding the common part (name and id) and the list of fields, each
  with its name and the id of its type (2 for a signed integer, 5 for a byte slice).
\<close>

definition encodeFieldType :: "string \<times> int64 \<Rightarrow> bytes" where
  "encodeFieldType f = (case f of (name, typeId) \<Rightarrow>
     encodeUint 1 @ encodeString name @ encodeUint 1 @ encodeInt typeId @ encodeUint 0)"

definition encodeWireStruct :: "string \<Rightarrow> int64 \<Rightarrow> (string \<times> int64) list \<Rightarrow> bytes" where
  "encodeWireStruct name typeId fieldTypes =
     encodeUint 3 @
       encodeUint 1 @
         encodeUint 1 @ encodeString name @ encodeUint 1 @ encodeInt typeId @ encodeUint 0 @
       encodeUint 1 @
         encodeUint (of_nat (length fieldTypes)) @ concat (map encodeFieldType fieldTypes) @
       encodeUint 0 @
     encodeUint 0"

definition BlockId :: int64 where
  "BlockId = 65"

definition BlockFields :: "(string \<times> int64) list" where
  "BlockFields =
     [(''Timestamp'', 2), (''Data'', 5), (''PrevBlockHash'', 5), (''Hash'', 5), (''Nonce'', 2)]"

definition typeDefinition :: bytes where
  "typeDefinition = encodeInt (- BlockId) @ encodeWireStruct ''Block'' BlockId BlockFields"

text \<open>\<open>writeMessage\<close>: a message is its length followed by its bytes.\<close>

definition writeMessage :: "bytes \<Rightarrow> gobError + bytes" where
  "writeMessage message =
     (if tooBig \<le> length message then Inl MessageTooBig
      else Inr (encodeUint (of_nat (length message)) @ message))"

definition Encode :: "Block \<Rightarrow> gobError + bytes" where
  "Encode b =
     (case writeMessage typeDefinition of
        Inl e \<Rightarrow> Inl e
      | Inr m1 \<Rightarrow>
         (case writeMessage (encodeInt BlockId @ encodeStruct b) of
            Inl e \<Rightarrow> Inl e
          | Inr m2 \<Rightarrow> Inr (m1 @ m2)))"

subsection \<open>Decoder\<close>

text \<open>
  Reading an unsigned integer off the front of a buffer. The two readers of gob differ
  in the errors they report: \<open>decodeUintReader\<close> reads the stream and the type ids,
  \<open>decodeUint\<close> reads inside a value.
\<close>

definition be_word :: "bytes \<Rightarrow> uint64" where
  "be_word buf = foldl (\<lambda>x b. push_bit 8 x OR ucast b) 0 buf"

definition decodeUintReader :: "bytes \<Rightarrow> gobError + (uint64 \<times> bytes)" where
  "decodeUintReader r =
     (case r of
        [] \<Rightarrow> Inl EOF
      | b # r' \<Rightarrow>
          if b \<le> 0x7F then Inr (ucast b, r')
          else let n = nat (- sint b) in
            if 8 < n then Inl errBadUint
            else if length r' < n then Inl ErrUnexpectedEOF
            else Inr (be_word (take n r'), drop n r'))"

definition decodeUint :: "bytes \<Rightarrow> gobError + (uint64 \<times> bytes)" where
  "decodeUint buf =
     (case buf of
        [] \<Rightarrow> Inl EOF
      | b # buf' \<Rightarrow>
          if b \<le> 0x7F then Inr (ucast b, buf')
          else let n = nat (- sint b) in
            if 8 < n then Inl errBadUint
            else if length buf' < n then Inl InvalidUintLength
            else Inr (be_word (take n buf'), drop n buf'))"

definition toInt :: "uint64 \<Rightarrow> int64" where
  "toInt x = (if x AND 1 \<noteq> 0 then NOT (drop_bit 1 x) else drop_bit 1 x)"

definition nextInt :: "bytes \<Rightarrow> gobError + (int64 \<times> bytes)" where
  "nextInt buf =
     (case decodeUintReader buf of Inl e \<Rightarrow> Inl e | Inr (x, buf') \<Rightarrow> Inr (toInt x, buf'))"

definition decodeInt :: "bytes \<Rightarrow> gobError + (int64 \<times> bytes)" where
  "decodeInt buf =
     (case decodeUint buf of Inl e \<Rightarrow> Inl e | Inr (x, buf') \<Rightarrow> Inr (toInt x, buf'))"

text \<open>\<open>decUint8Slice\<close>: a length, checked against what is left, then that many bytes.\<close>

definition decUint8Slice :: "bytes \<Rightarrow> gobError + (bytes \<times> bytes)" where
  "decUint8Slice buf =
     (case decodeUint buf of
        Inl e \<Rightarrow> Inl e
      | Inr (x, buf') \<Rightarrow>
          let n = sint x in
          if n < 0 \<or> int (length buf') < n \<or> int tooBig \<le> n then Inl BadSliceLength
          else Inr (take (nat n) buf', drop (nat n) buf'))"

text \<open>The decoding instruction of each field of \<open>Block\<close>, by its number on the wire.\<close>

definition decodeField :: "int \<Rightarrow> Block \<Rightarrow> bytes \<Rightarrow> gobError + (Block \<times> bytes)" where
  "decodeField fieldnum blk buf =
     (if fieldnum = 0 then
        (case decodeInt buf of Inl e \<Rightarrow> Inl e | Inr (v, buf') \<Rightarrow> Inr (blk\<lparr>Timestamp := v\<rparr>, buf'))
      else if fieldnum = 1 then
        (case decUint8Slice buf of Inl e \<Rightarrow> Inl e | Inr (v, buf') \<Rightarrow> Inr (blk\<lparr>Data := v\<rparr>, buf'))
      else if fieldnum = 2 then
        (case decUint8Slice buf of Inl e \<Rightarrow> Inl e | Inr (v, buf') \<Rightarrow> Inr (blk\<lparr>PrevBlockHash := v\<rparr>, buf'))
      else if fieldnum = 3 then
        (case decUint8Slice buf of Inl e \<Rightarrow> Inl e | Inr (v, buf') \<Rightarrow> Inr (blk\<lparr>Hash := v\<rparr>, buf'))
      else
        (case decodeInt buf of Inl e \<Rightarrow> Inl e | Inr (v, buf') \<Rightarrow> Inr (blk\<lparr>Nonce := v\<rparr>, buf')))"

lemma decodeUint_shorter: "decodeUint buf = Inr (x, buf') \<Longrightarrow> length buf' < length buf"
  by (auto simp: decodeUint_def Let_def split: list.splits if_splits)

lemma decodeInt_shorter: "decodeInt buf = Inr (v, buf') \<Longrightarrow> length buf' < length buf"
  by (auto simp: decodeInt_def split: sum.splits dest: decodeUint_shorter)

lemma decUint8Slice_shorter: "decUint8Slice buf = Inr (v, buf') \<Longrightarrow> length buf' < length buf"
  by (fastforce simp: decUint8Slice_def Let_def split: sum.splits if_splits dest: decodeUint_shorter)

lemma decodeField_shorter:
  "decodeField fieldnum blk buf = Inr (blk', buf') \<Longrightarrow> length buf' < length buf"
  by (auto simp: decodeField_def split: if_splits sum.splits
      dest: decodeInt_shorter decUint8Slice_shorter)

text \<open>
  \<open>decodeStruct\<close>: while bytes are left, read a distance; zero ends the struct, otherwise
  it leads to the next field, which must be one of the five.
\<close>

function decodeStruct :: "int \<Rightarrow> Block \<Rightarrow> bytes \<Rightarrow> gobError + Block" where
  "decodeStruct fieldnum blk buf =
     (if length buf = 0 then Inr blk
      else case decodeUint buf of
        Inl e \<Rightarrow> Inl e
      | Inr (x, buf') \<Rightarrow>
          let delta = sint x in
          if delta < 0 then Inl NegativeDelta
          else if delta = 0 then Inr blk
          else if 5 - delta \<le> fieldnum then Inl errRange
          else
            (case decodeField (fieldnum + delta) blk buf' of
               Inl e \<Rightarrow> Inl e
             | Inr (blk', buf'') \<Rightarrow> decodeStruct (fieldnum + delta) blk' buf''))"
  by pat_completeness auto
termination
  by (relation "measure (\<lambda>(fieldnum, blk, buf). length buf)")
     (auto dest!: decodeUint_shorter decodeField_shorter)

declare decodeStruct.simps [simp del]

text \<open>\<open>recvMessage\<close>: a count, then that many bytes of the stream.\<close>

definition recvMessage :: "bytes \<Rightarrow> gobError + (bytes \<times> bytes)" where
  "recvMessage r =
     (case decodeUintReader r of
        Inl e \<Rightarrow> Inl e
      | Inr (nbytes, r') \<Rightarrow>
          if tooBig \<le> unat nbytes then Inl errBadCount
          else if length r' < unat nbytes then Inl ErrUnexpectedEOF
          else Inr (take (unat nbytes) r', drop (unat nbytes) r'))"

text \<open>The zero value of \<open>Block\<close>, which \<open>var block Block\<close> declares.\<close>

definition zeroBlock :: Block where
  "zeroBlock = \<lparr>Timestamp = 0, Data = [], PrevBlockHash = [], Hash = [], Nonce = 0\<rparr>"

text \<open>
  \<open>Decode\<close> into a zero \<open>Block\<close>: the type section, then the value. After a type
  definition a value must follow, so the end of the stream there is unexpected.
\<close>

definition Decode :: "bytes \<Rightarrow> gobError + Block" where
  "Decode r =
     (case recvMessage r of
        Inl e \<Rightarrow> Inl e
      | Inr (m1, r1) \<Rightarrow>
         (case nextInt m1 of
            Inl e \<Rightarrow> Inl e
          | Inr (id1, _) \<Rightarrow>
              if 0 \<le> sint id1 then Inl errBadType
              else if m1 \<noteq> typeDefinition then Inl OtherStream
              else
                (case recvMessage r1 of
                   Inl e \<Rightarrow> Inl (if e = EOF then ErrUnexpectedEOF else e)
                 | Inr (m2, r2) \<Rightarrow>
                    (case nextInt m2 of
                       Inl e \<Rightarrow> Inl (if e = EOF then ErrUnexpectedEOF else e)
                     | Inr (id2, body) \<Rightarrow>
                         if sint id2 < 0 then Inl OtherStream
                         else if id2 \<noteq> BlockId then Inl errBadType
                         else decodeStruct (- 1) zeroBlock body))))"

section \<open>Errors and the block serializer\<close>

text \<open>
  The values of Go's \<open>error\<close> that this program meets, and the errors of \<open>bolt\<close> that
  \<open>Put\<close> can return inside a writable transaction. Every function that can call
  \<open>log.Fatal\<close> returns a sum: \<open>Inl e\<close> is the process ended by \<open>log.Fatal(e)\<close>.
\<close>

datatype boltError = ErrKeyRequired | ErrKeyTooLarge | ErrValueTooLarge

datatype error = GobError gobError | BoltError boltError | ErrorNew string

definition Serialize :: "Block \<Rightarrow> error + bytes" where
  "Serialize b = (case Encode b of Inl err \<Rightarrow> Inl (GobError err) | Inr result \<Rightarrow> Inr result)"

definition DeseralizeBlock :: "bytes \<Rightarrow> error + Block" where
  "DeseralizeBlock d = (case Decode d of Inl err \<Rightarrow> Inl (GobError err) | Inr blk \<Rightarrow> Inr blk)"


section \<open>The block store and the chain\<close>

text \<open>
  The database of \<open>bolt\<close> as this program uses it: named buckets, each a map from keys
  to values. \<open>Get\<close> answers \<open>nil\<close>, the empty byte string, for a key that is absent;
  \<open>Put\<close> refuses an empty key, a key above \<open>MaxKeySize\<close> and a value above
  \<open>MaxValueSize\<close>. A transaction is one step of the model: \<open>Update\<close> commits what its
  function did when the function returns no error, and nothing otherwise.
\<close>

type_synonym Bucket = "bytes \<rightharpoonup> bytes"
type_synonym DB = "bytes \<rightharpoonup> Bucket"

definition blocksBucket :: bytes where
  "blocksBucket = bytes_of ''Blocks''"

definition MaxKeySize :: nat where
  "MaxKeySize = 32768"

definition MaxValueSize :: nat where
  "MaxValueSize = 2 ^ 31 - 2"

definition Get :: "Bucket \<Rightarrow> bytes \<Rightarrow> bytes" where
  "Get b key = (case b key of None \<Rightarrow> [] | Some v \<Rightarrow> v)"

definition Put :: "Bucket \<Rightarrow> bytes \<Rightarrow> bytes \<Rightarrow> boltError + Bucket" where
  "Put b key val =
     (if length key = 0 then Inl ErrKeyRequired
      else if MaxKeySize < length key then Inl ErrKeyTooLarge
      else if MaxValueSize < length val then Inl ErrValueTooLarge
      else Inr (b(key \<mapsto> val)))"

record Blockchain =
  tip :: bytes
  Db :: DB

record BlockchainIterator =
  currentHash :: bytes
  db :: DB

text \<open>
  \<open>AddBlock\<close>: a read transaction fetches the hash under \<open>l\<close>, the block is mined, and a
  write transaction stores it and moves \<open>l\<close>. Either transaction fails when the bucket
  is missing, the second also when a \<open>Put\<close> fails, and every failure goes to
  \<open>log.Fatal\<close>. \<open>Serialize\<close> is an argument of the first \<open>Put\<close> and so runs before it.
\<close>

definition AddBlock :: "digest \<Rightarrow> int64 \<Rightarrow> string \<Rightarrow> Blockchain \<Rightarrow> error + Blockchain" where
  "AddBlock Sum256 now data bc =
     (case Db bc blocksBucket of
        None \<Rightarrow> Inl (ErrorNew ''error getting last block, could not find blocks bucket'')
      | Some b \<Rightarrow>
          let lastHash = Get b (bytes_of ''l'');
              newBlock = NewBlock Sum256 now data lastHash
          in (case Db bc blocksBucket of
                None \<Rightarrow> Inl (ErrorNew ''error adding block, could not find blocks bucket'')
              | Some b \<Rightarrow>
                 (case Serialize newBlock of
                    Inl err \<Rightarrow> Inl err
                  | Inr encoded \<Rightarrow>
                     (case Put b (Hash newBlock) encoded of
                        Inl err \<Rightarrow> Inl (BoltError err)
                      | Inr b1 \<Rightarrow>
                         (case Put b1 (bytes_of ''l'') (Hash newBlock) of
                            Inl err \<Rightarrow> Inl (BoltError err)
                          | Inr b2 \<Rightarrow>
                              Inr \<lparr>tip = Hash newBlock, Db = (Db bc)(blocksBucket \<mapsto> b2)\<rparr>)))))"

text \<open>
  \<open>NewBlockchain\<close>, on the database that \<open>bolt.Open\<close> returned. Without the bucket it
  mines the genesis block, creates the bucket and writes the two records, ignoring what
  \<open>CreateBucket\<close> and \<open>Put\<close> return; with the bucket it reads \<open>l\<close>.
\<close>

definition NewBlockchain :: "digest \<Rightarrow> int64 \<Rightarrow> DB \<Rightarrow> error + Blockchain" where
  "NewBlockchain Sum256 now d =
     (case d blocksBucket of
        None \<Rightarrow>
          let genesis = NewGenesisBlock Sum256 now;
              b = Map.empty
          in (case Serialize genesis of
                Inl err \<Rightarrow> Inl err
              | Inr encoded \<Rightarrow>
                  let b1 = (case Put b (Hash genesis) encoded of Inl err \<Rightarrow> b | Inr b' \<Rightarrow> b');
                      b2 = (case Put b1 (bytes_of ''l'') (Hash genesis) of Inl err \<Rightarrow> b1 | Inr b' \<Rightarrow> b')
                  in Inr \<lparr>tip = Hash genesis, Db = d(blocksBucket \<mapsto> b2)\<rparr>)
      | Some b \<Rightarrow> Inr \<lparr>tip = Get b (bytes_of ''l''), Db = d\<rparr>)"

text \<open>
  The iterator holds the database that the chain holds. \<open>Next\<close> returns the block and
  the iterator moved to the previous hash.
\<close>

definition Iterator :: "Blockchain \<Rightarrow> BlockchainIterator" where
  "Iterator bc = \<lparr>currentHash = tip bc, db = Db bc\<rparr>"

definition Next :: "BlockchainIterator \<Rightarrow> error + (Block \<times> BlockchainIterator)" where
  "Next i =
     (case db i blocksBucket of
        None \<Rightarrow> Inl (ErrorNew ''error fetching block, blocks bucket does not exist'')
      | Some b \<Rightarrow>
          let encodedBlock = Get b (currentHash i)
          in (case DeseralizeBlock encodedBlock of
                Inl err \<Rightarrow> Inl err
              | Inr blk \<Rightarrow> Inr (blk, i\<lparr>currentHash := PrevBlockHash blk\<rparr>)))"

subsection \<open>Sequences of calls\<close>

text \<open>
  \<open>AddBlocks\<close> calls \<open>AddBlock\<close> once for each pair of a time and a payload, in order;
  \<open>Nexts n\<close> calls \<open>Next\<close> \<open>n\<close> times and collects the blocks in the order returned.
\<close>

fun AddBlocks :: "digest \<Rightarrow> (int64 \<times> string) list \<Rightarrow> Blockchain \<Rightarrow> error + Blockchain" where
  "AddBlocks Sum256 [] bc = Inr bc"
| "AddBlocks Sum256 ((now, data) # rest) bc =
     (case AddBlock Sum256 now data bc of
        Inl err \<Rightarrow> Inl err
      | Inr bc' \<Rightarrow> AddBlocks Sum256 rest bc')"

fun Nexts :: "nat \<Rightarrow> BlockchainIterator \<Rightarrow> error + Block list" where
  "Nexts 0 i = Inr []"
| "Nexts (Suc n) i =
     (case Next i of
        Inl err \<Rightarrow> Inl err
      | Inr (blk, i') \<Rightarrow>
         (case Nexts n i' of Inl err \<Rightarrow> Inl err | Inr blks \<Rightarrow> Inr (blk # blks)))"

text \<open>
  \<open>fresh_hashes\<close>: in this run of \<open>AddBlocks\<close> every call succeeds and the hash of the block
  it mines is not yet a key of the bucket. The digest is a parameter, so that two blocks
  of a run never share a hash has to be said.
\<close>

fun fresh_hashes :: "digest \<Rightarrow> (int64 \<times> string) list \<Rightarrow> Blockchain \<Rightarrow> bool" where
  "fresh_hashes Sum256 [] bc = True"
| "fresh_hashes Sum256 ((now, data) # rest) bc =
     (case AddBlock Sum256 now data bc of
        Inl err \<Rightarrow> False
      | Inr bc' \<Rightarrow>
         (case Db bc blocksBucket of
            None \<Rightarrow> False
          | Some b \<Rightarrow> b (tip bc') = None \<and> fresh_hashes Sum256 rest bc'))"

text \<open>
  \<open>linked b h blocks\<close>: following the bucket from the key \<open>h\<close> meets the serialized
  \<open>blocks\<close> one after the other, each stored under its own hash and naming the next by
  its previous hash, and the last has no previous hash.
\<close>

fun linked :: "Bucket \<Rightarrow> bytes \<Rightarrow> Block list \<Rightarrow> bool" where
  "linked b h [] = False"
| "linked b h (x # xs) =
     ((case Serialize x of Inl err \<Rightarrow> False | Inr encoded \<Rightarrow> b h = Some encoded) \<and>
      Hash x = h \<and> h \<noteq> bytes_of ''l'' \<and>
      (if xs = [] then PrevBlockHash x = [] else linked b (PrevBlockHash x) xs))"

text \<open>
  The state a chain is in between calls: the bucket exists, \<open>l\<close> holds the tip, and the
  blocks are linked from the tip.
\<close>

definition chain_inv :: "Blockchain \<Rightarrow> Block list \<Rightarrow> bool" where
  "chain_inv bc blocks \<longleftrightarrow>
     (case Db bc blocksBucket of
        None \<Rightarrow> False
      | Some b \<Rightarrow> b (bytes_of ''l'') = Some (tip bc) \<and> linked b (tip bc) blocks)"

section \<open>Example inputs\<close>

text \<open>
  Concrete digests and blocks on which the properties below are exercised. \<open>never_digest\<close>
  maps every input to the largest 256-bit value, so no nonce ever passes;
  \<open>third_digest\<close> gives a small value, the length of its input, exactly when the third
  byte from the end of the input is the character \<open>3\<close>, which for the input \<open>Run\<close>
  prepares is the last digit of the nonce.
\<close>

lift_definition ff32 :: byte32 is "replicate 32 255"
  by simp

definition low32 :: "byte \<Rightarrow> byte32" where
  "low32 b = Abs_byte32 (replicate 31 0 @ [b])"

definition never_digest :: digest where
  "never_digest data = ff32"

definition third_digest :: digest where
  "third_digest data =
     (if 3 \<le> length data \<and> data ! (length data - 3) = 51 then low32 (of_nat (length data)) else ff32)"

definition block0 :: Block where
  "block0 = \<lparr>Timestamp = 1700000000, Data = [104, 105], PrevBlockHash = [], Hash = [], Nonce = 0\<rparr>"

definition pow0 :: ProofOfWork where
  "pow0 = NewProofOfWork block0"

definition mined0 :: Block where
  "mined0 = NewBlock third_digest 1700000000 ''hi'' []"

definition plain_block :: Block where
  "plain_block = \<lparr>Timestamp = 1700000000, Data = [], PrevBlockHash = [], Hash = [1, 2, 3], Nonce = - 5\<rparr>"

definition empty_store :: DB where
  "empty_store = [blocksBucket \<mapsto> Map.empty]"

definition blank_store :: DB where
  "blank_store = [blocksBucket \<mapsto> [[1] \<mapsto> []]]"

definition tipped_store :: DB where
  "tipped_store = [blocksBucket \<mapsto> [bytes_of ''l'' \<mapsto> [7]]]"

text \<open>
  A chain made with \<open>third_digest\<close>: the genesis block, then two blocks. Each
  definition takes the result of the call, and the value before the call should it fail,
  which it does not.
\<close>

definition chain0 :: Blockchain where
  "chain0 =
     (case NewBlockchain third_digest 1700000000 Map.empty of
        Inl err \<Rightarrow> \<lparr>tip = [], Db = Map.empty\<rparr>
      | Inr bc \<Rightarrow> bc)"

definition chain1 :: Blockchain where
  "chain1 =
     (case AddBlock third_digest 1700000060 ''First Block'' chain0 of
        Inl err \<Rightarrow> chain0
      | Inr bc \<Rightarrow> bc)"

definition chain2 :: Blockchain where
  "chain2 =
     (case AddBlock third_digest 1700000120 ''Second Block'' chain1 of
        Inl err \<Rightarrow> chain1
      | Inr bc \<Rightarrow> bc)"

section \<open>Numbers written in bytes\<close>

subsection \<open>Big-endian integers\<close>

lemma SetBytes_snoc: "SetBytes (xs @ [x]) = SetBytes xs * 256 + uint x"
  by (simp add: SetBytes_def)

lemma SetBytes_Nil: "SetBytes [] = 0"
  by (simp add: SetBytes_def)

lemma SetBytes_big_endian:
  "SetBytes xs = (\<Sum>i<length xs. uint (xs ! i) * 256 ^ (length xs - 1 - i))"
proof (induction xs rule: rev_induct)
  case Nil
  show ?case by (simp add: SetBytes_Nil)
next
  case (snoc x xs)
  have "(\<Sum>i<length xs. uint ((xs @ [x]) ! i) * 256 ^ (length (xs @ [x]) - 1 - i))
      = (\<Sum>i<length xs. (uint (xs ! i) * 256 ^ (length xs - 1 - i)) * 256)"
  proof (rule sum.cong)
    fix i assume "i \<in> {..<length xs}"
    then have i: "i < length xs" by simp
    then have "length (xs @ [x]) - 1 - i = Suc (length xs - 1 - i)" by simp
    then show "uint ((xs @ [x]) ! i) * 256 ^ (length (xs @ [x]) - 1 - i)
        = (uint (xs ! i) * 256 ^ (length xs - 1 - i)) * 256"
      using i by (simp add: nth_append)
  qed simp
  then show ?case
    by (simp add: SetBytes_snoc snoc.IH sum_distrib_right)
qed

lemma SetBytes_bounds: "0 \<le> SetBytes xs \<and> SetBytes xs < 256 ^ length xs"
proof (induction xs rule: rev_induct)
  case Nil
  show ?case by (simp add: SetBytes_Nil)
next
  case (snoc x xs)
  have "uint x < 256" using uint_bounded [of x] by simp
  moreover have "0 \<le> uint x" by simp
  ultimately show ?case using snoc.IH by (simp add: SetBytes_snoc) 
qed

lemma SetBytes_byte32: "0 \<le> SetBytes (Rep_byte32 h) \<and> SetBytes (Rep_byte32 h) < 2 ^ 256"
proof -
  have "length (Rep_byte32 h) = 32" using Rep_byte32 [of h] by simp
  then show ?thesis using SetBytes_bounds [of "Rep_byte32 h"] by simp
qed

lemma SetBytes_replicate_255: "SetBytes (replicate n 255) = 256 ^ n - 1"
proof (induction n)
  case 0
  show ?case by (simp add: SetBytes_Nil)
next
  case (Suc n)
  have "replicate (Suc n) (255 :: byte) = replicate n 255 @ [255]"
    by (simp add: replicate_append_same)
  then show ?case by (simp add: SetBytes_snoc Suc.IH)
qed

lemma SetBytes_replicate_0: "SetBytes (replicate n 0) = 0"
proof (induction n)
  case 0
  show ?case by (simp add: SetBytes_Nil)
next
  case (Suc n)
  have "replicate (Suc n) (0 :: byte) = replicate n 0 @ [0]"
    by (simp add: replicate_append_same)
  then show ?case by (simp add: SetBytes_snoc Suc.IH)
qed

subsection \<open>Decimal text\<close>

lemma digit_byte:
  assumes "d < 10"
  shows "uint (digit d) = 48 + int d" and "is_digit (digit d)"
proof -
  have u: "unat (digit d) = 48 + d"
    unfolding digit_def using assms by (simp add: unat_of_nat del: of_nat_add)
  then show "uint (digit d) = 48 + int d"
    by (simp add: uint_nat)
  have "unat (48 :: byte) \<le> unat (digit d)" and "unat (digit d) \<le> unat (57 :: byte)"
    using assms by (simp_all add: u)
  then show "is_digit (digit d)"
    unfolding is_digit_def word_le_nat_alt by simp
qed

lemma digit_not_minus: "d < 10 \<Longrightarrow> digit d \<noteq> 45"
  using digit_byte(1) [of d] by auto

lemma decimal_nat_snoc: "decimal_nat (ds @ [d]) = decimal_nat ds * 10 + (uint d - 48)"
  by (simp add: decimal_nat_def)

lemma digits10_value: "decimal_nat (digits10 n) = int n"
proof (induction n rule: digits10.induct)
  case (1 n)
  show ?case
  proof (cases "n < 10")
    case True
    then show ?thesis
      by (subst digits10.simps) (simp add: decimal_nat_def digit_byte(1))
  next
    case False
    have "n mod 10 < 10" by simp
    then have "uint (digit (n mod 10)) = 48 + int (n mod 10)"
      by (rule digit_byte(1))
    then show ?thesis using False "1.IH"
      by (subst digits10.simps) (simp add: decimal_nat_snoc zmod_int zdiv_int)
  qed
qed

lemma digits10_digits: "list_all is_digit (digits10 n) \<and> digits10 n \<noteq> [] \<and> hd (digits10 n) \<noteq> 45"
proof (induction n rule: digits10.induct)
  case (1 n)
  show ?case
  proof (cases "n < 10")
    case True
    then show ?thesis
      by (subst (1 2 3) digits10.simps) (simp add: digit_byte(2) digit_not_minus)
  next
    case False
    have "n mod 10 < 10" by simp
    then have "is_digit (digit (n mod 10))" by (rule digit_byte(2))
    then show ?thesis using False "1.IH"
      by (subst (1 2 3) digits10.simps) (simp add: hd_append)
  qed
qed

lemma FormatInt10_decimal: "is_decimal (FormatInt10 i) \<and> decimal_value (FormatInt10 i) = sint i"
proof (cases "sint i < 0")
  case True
  then show ?thesis
    using digits10_digits [of "nat (- sint i)"] digits10_value [of "nat (- sint i)"]
    by (simp add: FormatInt10_def is_decimal_def decimal_value_def)
next
  case False
  obtain c ds where c: "digits10 (nat (sint i)) = c # ds"
    using digits10_digits [of "nat (sint i)"] by (cases "digits10 (nat (sint i))") auto
  then have "c \<noteq> 45" using digits10_digits [of "nat (sint i)"] by simp
  then show ?thesis
    using False c digits10_digits [of "nat (sint i)"] digits10_value [of "nat (sint i)"]
    by (simp add: FormatInt10_def is_decimal_def decimal_value_def)
qed

lemma FormatInt10_nonempty: "FormatInt10 n \<noteq> []"
  using digits10_digits by (simp add: FormatInt10_def)

lemma Join_empty_sep: "Join xs [] = concat xs"
  by (induction xs "[] :: bytes" rule: Join.induct) simp_all

section \<open>Properties of the mining search\<close>

subsection \<open>The loop\<close>

lemma Cmp_less: "Cmp x y = - 1 \<longleftrightarrow> x < y"
  by (simp add: Cmp_def)

lemma Run_loop_step:
  "Run_loop H pow n h =
     (if n <s maxNonce then
        if passes H pow n then (n, H (prepareData pow n))
        else Run_loop H pow (n + 1) (H (prepareData pow n))
      else (n, h))"
  by (subst Run_loop.simps) (simp add: Let_def Cmp_less passes_def digest_of_def)

lemma Run_loop_found:
  assumes "sint n \<le> sint k" "k <s maxNonce" "passes H pow k"
    and "\<forall>m. sint n \<le> sint m \<and> sint m < sint k \<longrightarrow> \<not> passes H pow m"
  shows "Run_loop H pow n h = (k, H (prepareData pow k))"
  using assms
proof (induction "nat (sint k - sint n)" arbitrary: n h)
  case 0
  then have "sint n = sint k" by simp
  then have "n = k" by (rule signed_word_eqI)
  with 0 show ?case by (simp add: Run_loop_step)
next
  case (Suc d)
  then have lt: "sint n < sint k" by linarith
  with Suc.prems have nmax: "n <s maxNonce" by (simp add: word_sless_alt)
  have np: "\<not> passes H pow n" using Suc.prems lt by blast
  have s: "sint (n + 1) = sint n + 1" using nmax by (rule sint_succ_below_max)
  have "Run_loop H pow (n + 1) (H (prepareData pow n)) = (k, H (prepareData pow k))"
  proof (rule Suc.hyps(1))
    show "d = nat (sint k - sint (n + 1))" using Suc.hyps(2) s by simp
    show "sint (n + 1) \<le> sint k" using lt s by simp
    show "k <s maxNonce" by fact
    show "passes H pow k" by fact
    show "\<forall>m. sint (n + 1) \<le> sint m \<and> sint m < sint k \<longrightarrow> \<not> passes H pow m"
      using Suc.prems(4) s by simp
  qed
  then show ?case using nmax np by (simp add: Run_loop_step)
qed

lemma Run_loop_exhaust:
  assumes "n <s maxNonce"
    and "\<forall>m. sint n \<le> sint m \<and> m <s maxNonce \<longrightarrow> \<not> passes H pow m"
  shows "Run_loop H pow n h = (maxNonce, H (prepareData pow (maxNonce - 1)))"
  using assms
proof (induction "nat (sint maxNonce - sint n)" arbitrary: n h)
  case 0
  then show ?case by (simp add: word_sless_alt)
next
  case (Suc d)
  have s: "sint (n + 1) = sint n + 1" using Suc.prems(1) by (rule sint_succ_below_max)
  have np: "\<not> passes H pow n" using Suc.prems by blast
  show ?case
  proof (cases "n + 1 <s maxNonce")
    case True
    have "Run_loop H pow (n + 1) (H (prepareData pow n)) = (maxNonce, H (prepareData pow (maxNonce - 1)))"
    proof (rule Suc.hyps(1))
      show "d = nat (sint maxNonce - sint (n + 1))" using Suc.hyps(2) s by simp
      show "n + 1 <s maxNonce" by fact
      show "\<forall>m. sint (n + 1) \<le> sint m \<and> m <s maxNonce \<longrightarrow> \<not> passes H pow m"
        using Suc.prems(2) s by simp
    qed
    then show ?thesis using Suc.prems(1) np by (simp add: Run_loop_step)
  next
    case False
    then have "sint (n + 1) = sint maxNonce"
      using Suc.prems(1) s by (simp add: word_sless_alt)
    then have e: "n + 1 = maxNonce" by (rule signed_word_eqI)
    have n: "n = maxNonce - 1" using e by (simp add: eq_diff_eq)
    have "Run_loop H pow n h = Run_loop H pow (n + 1) (H (prepareData pow n))"
      using Suc.prems(1) np by (simp add: Run_loop_step [of H pow n])
    also have "\<dots> = (maxNonce, H (prepareData pow n))"
      unfolding e by (simp add: Run_loop_step [of H pow maxNonce] word_sless_alt)
    finally show ?thesis by (simp add: n)
  qed
qed

lemma Validate_iff: "Validate H pow \<longleftrightarrow> passes H pow (Nonce (block pow))"
  by (simp add: Validate_def Let_def Cmp_less passes_def digest_of_def)

lemma block_NewProofOfWork: "block (NewProofOfWork b) = b"
  by (simp add: NewProofOfWork_def)

lemma target_NewProofOfWork: "target (NewProofOfWork b) = 2 ^ 232"
  by (simp add: NewProofOfWork_def targetBits_def)

lemma prepareData_header:
  assumes "PrevBlockHash b' = PrevBlockHash b" "Data b' = Data b" "Timestamp b' = Timestamp b"
  shows "prepareData (NewProofOfWork b') m = prepareData (NewProofOfWork b) m"
  using assms by (simp add: prepareData_def NewProofOfWork_def)

lemma digest_of_header:
  assumes "PrevBlockHash b' = PrevBlockHash b" "Data b' = Data b" "Timestamp b' = Timestamp b"
  shows "digest_of H (NewProofOfWork b') m = digest_of H (NewProofOfWork b) m"
  using prepareData_header [OF assms] by (simp add: digest_of_def)

lemma passes_header:
  assumes "PrevBlockHash b' = PrevBlockHash b" "Data b' = Data b" "Timestamp b' = Timestamp b"
  shows "passes H (NewProofOfWork b') m = passes H (NewProofOfWork b) m"
  using digest_of_header [OF assms] by (simp add: passes_def NewProofOfWork_def)

lemma Run_least:
  assumes "0 \<le> sint k" "k <s maxNonce" "passes H pow k"
  shows "\<exists>n. Run H pow = (n, digest_of H pow n) \<and> 0 \<le> sint n \<and> sint n \<le> sint k \<and>
           passes H pow n \<and> (\<forall>m. 0 \<le> sint m \<and> sint m < sint n \<longrightarrow> \<not> passes H pow m)"
proof -
  let ?P = "\<lambda>m. 0 \<le> sint m \<and> passes H pow m"
  have "?P k" using assms by simp
  then obtain n where n: "?P n" and least: "\<forall>y. ?P y \<longrightarrow> nat (sint n) \<le> nat (sint y)"
    using ex_has_least_nat [of ?P k "\<lambda>m. nat (sint m)"] by blast
  have nk: "sint n \<le> sint k" using least \<open>?P k\<close> n by fastforce
  then have nmax: "n <s maxNonce" using assms(2) by (simp add: word_sless_alt)
  have below: "\<forall>m. 0 \<le> sint m \<and> sint m < sint n \<longrightarrow> \<not> passes H pow m"
    using least by fastforce
  have "Run_loop H pow 0 zero32 = (n, H (prepareData pow n))"
    using n nmax below by (intro Run_loop_found) simp_all
  then have "Run H pow = (n, digest_of H pow n)"
    by (simp add: Run_def digest_of_def)
  then show ?thesis using n nk below by blast
qed

lemma Run_none:
  assumes "\<forall>m. 0 \<le> sint m \<and> m <s maxNonce \<longrightarrow> \<not> passes H pow m"
  shows "Run H pow = (maxNonce, digest_of H pow (maxNonce - 1))"
proof -
  have "Run_loop H pow 0 zero32 = (maxNonce, H (prepareData pow (maxNonce - 1)))"
    using assms by (intro Run_loop_exhaust) (simp_all add: word_sless_alt maxNonce_def)
  then show ?thesis by (simp add: Run_def digest_of_def)
qed

lemma NewBlock_eq:
  "NewBlock H now data prev =
     \<lparr>Timestamp = now, Data = bytes_of data, PrevBlockHash = prev,
      Hash = snd (Run H (NewProofOfWork \<lparr>Timestamp = now, Data = bytes_of data, PrevBlockHash = prev, Hash = [], Nonce = 0\<rparr>)),
      Nonce = fst (Run H (NewProofOfWork \<lparr>Timestamp = now, Data = bytes_of data, PrevBlockHash = prev, Hash = [], Nonce = 0\<rparr>))\<rparr>"
  by (simp add: NewBlock_def Let_def split: prod.split)

lemma NewBlock_valid:
  assumes "0 \<le> sint k" "k <s maxNonce" "passes H (NewProofOfWork (NewBlock H now data prev)) k"
  shows "Validate H (NewProofOfWork (NewBlock H now data prev))"
    and "Hash (NewBlock H now data prev) =
           digest_of H (NewProofOfWork (NewBlock H now data prev)) (Nonce (NewBlock H now data prev))"
proof -
  let ?b = "\<lparr>Timestamp = now, Data = bytes_of data, PrevBlockHash = prev, Hash = [], Nonce = 0\<rparr>"
  let ?r = "Run H (NewProofOfWork ?b)"
  let ?nb = "NewBlock H now data prev"
  have p: "passes H (NewProofOfWork ?nb) m = passes H (NewProofOfWork ?b) m" for m
    by (rule passes_header) (simp_all add: NewBlock_eq)
  have d: "digest_of H (NewProofOfWork ?nb) m = digest_of H (NewProofOfWork ?b) m" for m
    by (rule digest_of_header) (simp_all add: NewBlock_eq)
  have "passes H (NewProofOfWork ?b) k"
    using assms(3) by (simp add: p)
  from Run_least [OF assms(1,2) this]
  obtain n where n: "?r = (n, digest_of H (NewProofOfWork ?b) n)" "passes H (NewProofOfWork ?b) n"
    by blast
  have nonce: "Nonce ?nb = n" using n(1) by (simp add: NewBlock_eq)
  have "block (NewProofOfWork ?nb) = ?nb" by (simp add: NewProofOfWork_def)
  then show "Validate H (NewProofOfWork ?nb)"
    using n(2) nonce by (simp add: Validate_iff p)
  show "Hash ?nb = digest_of H (NewProofOfWork ?nb) (Nonce ?nb)"
    using n(1) by (simp add: nonce d) (simp add: NewBlock_eq)
qed

lemma NewBlock_Validate_iff:
  "Validate H (NewProofOfWork (NewBlock H now data prev)) \<longleftrightarrow>
     (\<exists>k. 0 \<le> sint k \<and> k <s maxNonce \<and> passes H (NewProofOfWork (NewBlock H now data prev)) k) \<or>
     passes H (NewProofOfWork (NewBlock H now data prev)) maxNonce"
proof (cases "\<exists>k. 0 \<le> sint k \<and> k <s maxNonce \<and> passes H (NewProofOfWork (NewBlock H now data prev)) k")
  case True
  then show ?thesis using NewBlock_valid(1) by blast
next
  case False
  let ?b = "\<lparr>Timestamp = now, Data = bytes_of data, PrevBlockHash = prev, Hash = [], Nonce = 0\<rparr>"
  let ?nb = "NewBlock H now data prev"
  have p: "passes H (NewProofOfWork ?nb) m = passes H (NewProofOfWork ?b) m" for m
    by (rule passes_header) (simp_all add: NewBlock_eq)
  have "\<forall>m. 0 \<le> sint m \<and> m <s maxNonce \<longrightarrow> \<not> passes H (NewProofOfWork ?b) m"
    using False by (simp add: p)
  then have "Run H (NewProofOfWork ?b) = (maxNonce, digest_of H (NewProofOfWork ?b) (maxNonce - 1))"
    by (rule Run_none)
  then have "Nonce ?nb = maxNonce" by (simp add: NewBlock_eq)
  then have "Validate H (NewProofOfWork ?nb) \<longleftrightarrow> passes H (NewProofOfWork ?nb) maxNonce"
    by (simp add: Validate_iff block_NewProofOfWork)
  then show ?thesis using False by blast
qed

lemma prepareData_layout:
  "prepareData pow nonce =
     PrevBlockHash (block pow) @ Data (block pow) @ FormatInt10 (Timestamp (block pow)) @
     FormatInt10 nonce @ [50, 52]"
  by (simp add: prepareData_def targetBits_def FormatInt10_def digits10.simps digit_def)

subsection \<open>The example digests\<close>

lemma Rep_ff32: "Rep_byte32 ff32 = replicate 32 255"
  by (rule ff32.rep_eq)

lemma Rep_low32: "Rep_byte32 (low32 b) = replicate 31 0 @ [b]"
  by (simp add: low32_def Abs_byte32_inverse)

lemma SetBytes_ff32: "SetBytes (Rep_byte32 ff32) = 2 ^ 256 - 1"
  by (simp add: ff32.rep_eq SetBytes_replicate_255)

lemma SetBytes_low32: "SetBytes (Rep_byte32 (low32 b)) = uint b"
  by (simp add: Rep_low32 SetBytes_snoc SetBytes_replicate_0)

lemma byte_below_target: "uint (x :: byte) < 2 ^ 232"
proof -
  have "uint x < 2 ^ 8" using uint_bounded [of x] by simp
  also have "(2 :: int) ^ 8 < 2 ^ 232" by simp
  finally show ?thesis .
qed

lemma passes_third:
  "passes third_digest (NewProofOfWork b) n \<longleftrightarrow>
     (let d = prepareData (NewProofOfWork b) n in 3 \<le> length d \<and> d ! (length d - 3) = 51)"
proof -
  let ?d = "prepareData (NewProofOfWork b) n"
  show ?thesis
  proof (cases "3 \<le> length ?d \<and> ?d ! (length ?d - 3) = 51")
    case True
    then have "third_digest ?d = low32 (of_nat (length ?d))"
      by (simp add: third_digest_def)
    then have "SetBytes (digest_of third_digest (NewProofOfWork b) n) = uint (of_nat (length ?d) :: byte)"
      by (simp only: digest_of_def SetBytes_low32)
    then have "SetBytes (digest_of third_digest (NewProofOfWork b) n) < target (NewProofOfWork b)"
      unfolding target_NewProofOfWork by (simp only: byte_below_target)
    then show ?thesis using True by (simp only: passes_def Let_def simp_thms)
  next
    case False
    then have "third_digest ?d = ff32"
      by (auto simp: third_digest_def)
    then have "SetBytes (digest_of third_digest (NewProofOfWork b) n) = 2 ^ 256 - 1"
      by (simp only: digest_of_def SetBytes_ff32)
    then have "\<not> SetBytes (digest_of third_digest (NewProofOfWork b) n) < target (NewProofOfWork b)"
      by (simp add: target_NewProofOfWork)
    then show ?thesis using False by (simp only: passes_def Let_def simp_thms)
  qed
qed

lemma nth_before_two:
  assumes "xs \<noteq> []"
  shows "(xs @ [a, b]) ! (length (xs @ [a, b]) - 3) = last xs"
proof -
  have i: "length (xs @ [a, b]) - 3 = length xs - 1" by simp
  have "length xs - 1 < length xs" using assms by (cases xs) simp_all
  then have "(xs @ [a, b]) ! (length xs - 1) = xs ! (length xs - 1)"
    by (simp only: nth_append if_True)
  also have "\<dots> = last xs" using assms by (simp add: last_conv_nth)
  finally show ?thesis by (simp only: i)
qed

lemma third_from_end:
  "3 \<le> length (prepareData pow n)"
  "prepareData pow n ! (length (prepareData pow n) - 3) = last (FormatInt10 n)"
proof -
  define xs where "xs = PrevBlockHash (block pow) @ Data (block pow) @
      FormatInt10 (Timestamp (block pow)) @ FormatInt10 n"
  have d: "prepareData pow n = xs @ [50, 52]"
    by (simp add: prepareData_layout xs_def)
  have ne: "xs \<noteq> []" using FormatInt10_nonempty by (simp add: xs_def)
  then have "1 \<le> length xs" by (cases xs) simp_all
  then show "3 \<le> length (prepareData pow n)" unfolding d by simp
  have "last xs = last (FormatInt10 n)" using FormatInt10_nonempty by (simp add: xs_def)
  then show "prepareData pow n ! (length (prepareData pow n) - 3) = last (FormatInt10 n)"
    unfolding d using nth_before_two [OF ne, of 50 52] by simp
qed

lemma passes_third_last:
  "passes third_digest (NewProofOfWork b) n \<longleftrightarrow> last (FormatInt10 n) = 51"
  by (simp add: passes_third Let_def third_from_end)

lemma Run_third_digest:
  "Run third_digest (NewProofOfWork b) =
     (3, replicate 31 0 @ [of_nat (length (prepareData (NewProofOfWork b) 3))])"
proof -
  have p: "\<not> passes third_digest (NewProofOfWork b) 0" "\<not> passes third_digest (NewProofOfWork b) 1"
    "\<not> passes third_digest (NewProofOfWork b) 2" "passes third_digest (NewProofOfWork b) 3"
    by (simp_all add: passes_third_last FormatInt10_def digits10.simps digit_def)
  have lt: "(0 :: int64) <s maxNonce" "(1 :: int64) <s maxNonce" "(2 :: int64) <s maxNonce"
    "(3 :: int64) <s maxNonce"
    by (simp_all add: word_sless_alt maxNonce_def)
  have "Run_loop third_digest (NewProofOfWork b) 0 zero32 =
      (3, third_digest (prepareData (NewProofOfWork b) 3))"
    by (simp add: Run_loop_step [of _ _ 0] Run_loop_step [of _ _ 1] Run_loop_step [of _ _ 2]
        Run_loop_step [of _ _ 3] p lt)
  moreover have "third_digest (prepareData (NewProofOfWork b) 3) =
      low32 (of_nat (length (prepareData (NewProofOfWork b) 3)))"
    using p(4) by (simp add: third_digest_def passes_third Let_def)
  ultimately show ?thesis by (simp add: Run_def Rep_low32)
qed

lemma NewBlock_third_digest:
  "NewBlock third_digest now data prev =
     \<lparr>Timestamp = now, Data = bytes_of data, PrevBlockHash = prev,
      Hash = replicate 31 0 @ [of_nat (length prev + length data + length (FormatInt10 now) + 3)],
      Nonce = 3\<rparr>"
  by (simp add: NewBlock_eq Run_third_digest prepareData_layout block_NewProofOfWork bytes_of_def
      FormatInt10_def [of 3] digits10.simps digit_def)

lemma passes_third_0: "passes third_digest (NewProofOfWork mined0) 3"
  by (simp add: passes_third prepareData_layout mined0_def NewBlock_eq block_NewProofOfWork
      FormatInt10_def digits10.simps digit_def bytes_of_def)

lemma passes_third_5: "\<not> passes third_digest (NewProofOfWork mined0) 5"
  by (simp add: passes_third prepareData_layout mined0_def NewBlock_eq block_NewProofOfWork
      FormatInt10_def digits10.simps digit_def bytes_of_def)

lemma passes_third_pow0:
  "\<not> passes third_digest pow0 0" "\<not> passes third_digest pow0 1"
  "\<not> passes third_digest pow0 2" "passes third_digest pow0 3"
  by (simp_all add: pow0_def passes_third prepareData_layout block0_def block_NewProofOfWork
      FormatInt10_def digits10.simps digit_def)

lemma small_word_cases:
  fixes n :: int64
  assumes "0 \<le> sint n" "sint n \<le> 3"
  shows "n = 0 \<or> n = 1 \<or> n = 2 \<or> n = 3"
proof -
  have "sint n = 0 \<or> sint n = 1 \<or> sint n = 2 \<or> sint n = 3"
    using assms by arith
  then have "sint n = sint (0 :: int64) \<or> sint n = sint (1 :: int64) \<or>
      sint n = sint (2 :: int64) \<or> sint n = sint (3 :: int64)"
    by simp
  then show ?thesis by (blast intro: signed_word_eqI)
qed

lemma passes_third_genesis:
  "passes third_digest (NewProofOfWork (NewGenesisBlock third_digest 1700000000)) 3"
  by (simp add: passes_third prepareData_layout NewGenesisBlock_def NewBlock_eq
      block_NewProofOfWork FormatInt10_def digits10.simps digit_def bytes_of_def)

subsection \<open>What is hashed, what is found, what validates\<close>

text \<open>
  Claim C1. A block that \<open>NewBlock\<close> mined validates, provided the search met a nonce in
  \<open>[0, 2^63 - 1)\<close> whose digest is below the target; and a block whose nonce is set to a
  value whose digest is not strictly below the target does not validate. The third part
  says when exactly a mined block validates: when such a nonce exists, or else when the
  digest at the nonce \<open>2^63 - 1\<close>, with which the loop runs out, happens to be below the
  target.
\<close>

theorem Validate_mined_block:
  "(0 \<le> sint k \<and> k <s maxNonce \<and> passes Sum256 (NewProofOfWork (NewBlock Sum256 now data prev)) k
      \<longrightarrow> Validate Sum256 (NewProofOfWork (NewBlock Sum256 now data prev))) \<and>
   (\<not> passes Sum256 (NewProofOfWork b) n \<longrightarrow>
      \<not> Validate Sum256 (NewProofOfWork (b\<lparr>Nonce := n\<rparr>))) \<and>
   (Validate Sum256 (NewProofOfWork (NewBlock Sum256 now data prev)) \<longleftrightarrow>
      (\<exists>j. 0 \<le> sint j \<and> j <s maxNonce \<and>
           passes Sum256 (NewProofOfWork (NewBlock Sum256 now data prev)) j) \<or>
      passes Sum256 (NewProofOfWork (NewBlock Sum256 now data prev)) maxNonce)"
proof (intro conjI impI)
  show "Validate Sum256 (NewProofOfWork (NewBlock Sum256 now data prev)) \<longleftrightarrow>
      (\<exists>j. 0 \<le> sint j \<and> j <s maxNonce \<and>
           passes Sum256 (NewProofOfWork (NewBlock Sum256 now data prev)) j) \<or>
      passes Sum256 (NewProofOfWork (NewBlock Sum256 now data prev)) maxNonce"
    by (rule NewBlock_Validate_iff)
next
  assume "0 \<le> sint k \<and> k <s maxNonce \<and> passes Sum256 (NewProofOfWork (NewBlock Sum256 now data prev)) k"
  then show "Validate Sum256 (NewProofOfWork (NewBlock Sum256 now data prev))"
    using NewBlock_valid(1) by blast
next
  assume np: "\<not> passes Sum256 (NewProofOfWork b) n"
  have "passes Sum256 (NewProofOfWork (b\<lparr>Nonce := n\<rparr>)) n = passes Sum256 (NewProofOfWork b) n"
    by (rule passes_header) simp_all
  moreover have "Nonce (block (NewProofOfWork (b\<lparr>Nonce := n\<rparr>))) = n"
    by (simp add: NewProofOfWork_def)
  ultimately show "\<not> Validate Sum256 (NewProofOfWork (b\<lparr>Nonce := n\<rparr>))"
    using np by (simp add: Validate_iff)
qed

text \<open>
  The first part at a block mined with \<open>third_digest\<close> (nonce 3 passes), the second at
  the same block with its nonce changed to 5.
\<close>

theorem Validate_mined_block_witness:
  "Validate third_digest (NewProofOfWork mined0) \<and>
   \<not> Validate third_digest (NewProofOfWork (mined0\<lparr>Nonce := 5\<rparr>))"
  using Validate_mined_block [of 3 third_digest 1700000000 "''hi''" "[]" mined0 5]
    passes_third_0 passes_third_5
  by (simp add: mined0_def [symmetric] word_sless_alt maxNonce_def)

text \<open>
  Claim C2. The bytes hashed are \<open>prevHash\<close>, \<open>data\<close>, then the decimal texts of the
  timestamp, the nonce and \<open>targetBits\<close>, with nothing between them; \<open>FormatInt10\<close> is
  decimal text; \<open>targetBits\<close> is 24 and the target is 1 shifted left by \<open>256 - 24\<close>;
  validation and each round of the mining loop compare the digest of exactly these
  bytes with the target. The digest itself is the parameter \<open>Sum256\<close>, which stands for
  the standard library's \<open>sha256.Sum256\<close>.
\<close>

theorem hashed_bytes_layout:
  "prepareData pow nonce =
     PrevBlockHash (block pow) @ Data (block pow) @ FormatInt10 (Timestamp (block pow)) @
     FormatInt10 nonce @ FormatInt10 (of_nat targetBits) \<and>
   FormatInt10 (of_nat targetBits) = [50, 52] \<and>
   is_decimal (FormatInt10 i) \<and> decimal_value (FormatInt10 i) = sint i \<and>
   targetBits = 24 \<and> target (NewProofOfWork b) = push_bit (256 - 24) 1 \<and>
   target (NewProofOfWork b) = 2 ^ 232 \<and>
   Validate Sum256 pow =
     (SetBytes (Rep_byte32 (Sum256 (prepareData pow (Nonce (block pow))))) < target pow) \<and>
   Run_loop Sum256 pow nonce hash =
     (if nonce <s maxNonce then
        if SetBytes (Rep_byte32 (Sum256 (prepareData pow nonce))) < target pow
        then (nonce, Sum256 (prepareData pow nonce))
        else Run_loop Sum256 pow (nonce + 1) (Sum256 (prepareData pow nonce))
      else (nonce, hash))"
proof -
  have "prepareData pow nonce =
     PrevBlockHash (block pow) @ Data (block pow) @ FormatInt10 (Timestamp (block pow)) @
     FormatInt10 nonce @ FormatInt10 (of_nat targetBits)"
    by (simp add: prepareData_def Join_empty_sep)
  moreover have "FormatInt10 (of_nat targetBits) = [50, 52]"
    by (simp add: targetBits_def FormatInt10_def digits10.simps digit_def)
  moreover have "target (NewProofOfWork b) = push_bit (256 - 24) 1"
    by (simp add: NewProofOfWork_def targetBits_def)
  moreover have "Validate Sum256 pow =
     (SetBytes (Rep_byte32 (Sum256 (prepareData pow (Nonce (block pow))))) < target pow)"
    by (simp add: Validate_def Let_def Cmp_less)
  moreover note FormatInt10_decimal [of i] target_NewProofOfWork [of b]
    Run_loop_step [of Sum256 pow nonce hash, unfolded passes_def digest_of_def]
  ultimately show ?thesis by (simp add: targetBits_def)
qed

text \<open>
  Claim C3. \<open>Run\<close> starts its loop at nonce 0. When some nonce in \<open>[0, 2^63 - 1)\<close>
  passes, it returns the smallest non-negative nonce whose digest, read as a big-endian
  unsigned integer of 32 bytes (so below \<open>2^256\<close>), is strictly below the target,
  together with that digest; every smaller nonce fails.
\<close>

theorem Run_first_passing_nonce:
  assumes "0 \<le> sint k" and "k <s maxNonce" and "passes Sum256 pow k"
  shows "\<exists>n. Run Sum256 pow = (n, digest_of Sum256 pow n) \<and>
           0 \<le> sint n \<and> sint n \<le> sint k \<and>
           SetBytes (digest_of Sum256 pow n) < target pow \<and>
           (\<forall>m. 0 \<le> sint m \<and> sint m < sint n \<longrightarrow>
                \<not> SetBytes (digest_of Sum256 pow m) < target pow) \<and>
           SetBytes (digest_of Sum256 pow n) =
             (\<Sum>i<32. uint (digest_of Sum256 pow n ! i) * 256 ^ (31 - i)) \<and>
           0 \<le> SetBytes (digest_of Sum256 pow n) \<and> SetBytes (digest_of Sum256 pow n) < 2 ^ 256"
proof -
  obtain n where n: "Run Sum256 pow = (n, digest_of Sum256 pow n)" "0 \<le> sint n"
      "sint n \<le> sint k" "passes Sum256 pow n"
      "\<forall>m. 0 \<le> sint m \<and> sint m < sint n \<longrightarrow> \<not> passes Sum256 pow m"
    using Run_least [OF assms] by blast
  have "length (digest_of Sum256 pow n) = 32"
    using Rep_byte32 [of "Sum256 (prepareData pow n)"] by (simp add: digest_of_def)
  then have "SetBytes (digest_of Sum256 pow n) =
      (\<Sum>i<32. uint (digest_of Sum256 pow n ! i) * 256 ^ (31 - i))"
    using SetBytes_big_endian [of "digest_of Sum256 pow n"] by simp
  moreover have "0 \<le> SetBytes (digest_of Sum256 pow n) \<and>
      SetBytes (digest_of Sum256 pow n) < 2 ^ 256"
    unfolding digest_of_def by (rule SetBytes_byte32)
  ultimately show ?thesis using n unfolding passes_def by blast
qed

text \<open>
  With \<open>third_digest\<close> the nonces 0, 1 and 2 fail and 3 passes.
\<close>

theorem Run_first_passing_nonce_witness:
  "Run third_digest pow0 = (3, replicate 31 0 @ [15])"
proof -
  have "(0 :: int) \<le> sint (3 :: int64)" "(3 :: int64) <s maxNonce"
    by (simp_all add: word_sless_alt maxNonce_def)
  from Run_first_passing_nonce [OF this passes_third_pow0(4)]
  obtain n where n: "Run third_digest pow0 = (n, digest_of third_digest pow0 n)"
      "0 \<le> sint n" "sint n \<le> sint (3 :: int64)"
      "SetBytes (digest_of third_digest pow0 n) < target pow0"
    by blast
  have "passes third_digest pow0 n" using n(4) by (simp add: passes_def)
  moreover have "n = 0 \<or> n = 1 \<or> n = 2 \<or> n = 3"
    using n(2,3) by (intro small_word_cases) simp_all
  ultimately have "n = 3" using passes_third_pow0(1-3) by blast
  moreover have "digest_of third_digest pow0 3 = replicate 31 0 @ [15]"
    by (simp add: digest_of_def third_digest_def pow0_def prepareData_layout block0_def
        block_NewProofOfWork FormatInt10_def digits10.simps digit_def Rep_low32)
  ultimately show ?thesis using n(1) by simp
qed

text \<open>
  Claim C9. When no nonce in \<open>[0, 2^63 - 1)\<close> passes, \<open>Run\<close> leaves its loop by the loop
  condition and returns the nonce \<open>2^63 - 1\<close> with the digest computed for
  \<open>2^63 - 2\<close>, which is not below the target.
\<close>

theorem Run_exhausted:
  assumes "\<forall>m. 0 \<le> sint m \<and> m <s maxNonce \<longrightarrow> \<not> passes Sum256 pow m"
  shows "Run Sum256 pow = (maxNonce, digest_of Sum256 pow (maxNonce - 1)) \<and>
         sint maxNonce = 2 ^ 63 - 1 \<and> sint (maxNonce - 1) = 2 ^ 63 - 2 \<and>
         \<not> SetBytes (snd (Run Sum256 pow)) < target pow"
proof -
  have r: "Run Sum256 pow = (maxNonce, digest_of Sum256 pow (maxNonce - 1))"
    using assms by (rule Run_none)
  have s: "sint maxNonce = 2 ^ 63 - 1" "sint (maxNonce - 1) = 2 ^ 63 - 2"
    by (simp_all add: maxNonce_def)
  have "0 \<le> sint (maxNonce - 1) \<and> maxNonce - 1 <s maxNonce"
    by (simp add: word_sless_alt s)
  then have "\<not> passes Sum256 pow (maxNonce - 1)" using assms by blast
  then show ?thesis using r s by (simp add: passes_def)
qed

text \<open>
  With \<open>never_digest\<close> every digest is \<open>2^256 - 1\<close>.
\<close>

theorem Run_exhausted_witness:
  "Run never_digest pow0 = (0x7FFFFFFFFFFFFFFF, replicate 32 255)"
proof -
  have "\<forall>m. 0 \<le> sint m \<and> m <s maxNonce \<longrightarrow> \<not> passes never_digest pow0 m"
    by (simp add: passes_def digest_of_def never_digest_def SetBytes_ff32 pow0_def
        target_NewProofOfWork)
  from Run_exhausted [OF this] show ?thesis
    by (simp add: digest_of_def never_digest_def Rep_ff32 maxNonce_def)
qed

text \<open>
  Claim C10. The genesis block is \<open>NewBlock\<close> applied to the string \<open>Genesis Block\<close> and
  an empty previous hash; its data are the ASCII bytes of that string; and when the
  search meets a passing nonce the genesis block validates and its hash is below the
  target.
\<close>

theorem genesis_block_mined:
  "NewGenesisBlock Sum256 now = NewBlock Sum256 now ''Genesis Block'' [] \<and>
   Data (NewGenesisBlock Sum256 now) = [71, 101, 110, 101, 115, 105, 115, 32, 66, 108, 111, 99, 107] \<and>
   PrevBlockHash (NewGenesisBlock Sum256 now) = [] \<and>
   (0 \<le> sint k \<and> k <s maxNonce \<and> passes Sum256 (NewProofOfWork (NewGenesisBlock Sum256 now)) k \<longrightarrow>
      Validate Sum256 (NewProofOfWork (NewGenesisBlock Sum256 now)) \<and>
      SetBytes (Hash (NewGenesisBlock Sum256 now)) < target (NewProofOfWork (NewGenesisBlock Sum256 now)))"
proof -
  let ?g = "NewGenesisBlock Sum256 now"
  have g: "?g = NewBlock Sum256 now ''Genesis Block'' []"
    by (simp add: NewGenesisBlock_def)
  have d: "Data ?g = [71, 101, 110, 101, 115, 105, 115, 32, 66, 108, 111, 99, 107]"
    by (simp add: g NewBlock_eq bytes_of_def)
  have p: "PrevBlockHash ?g = []"
    by (simp add: g NewBlock_eq)
  have v: "Validate Sum256 (NewProofOfWork ?g) \<and>
      SetBytes (Hash ?g) < target (NewProofOfWork ?g)"
    if "0 \<le> sint k \<and> k <s maxNonce \<and> passes Sum256 (NewProofOfWork ?g) k"
  proof -
    have v: "Validate Sum256 (NewProofOfWork ?g)"
      and h: "Hash ?g = digest_of Sum256 (NewProofOfWork ?g) (Nonce ?g)"
      using that NewBlock_valid [of k Sum256 now "''Genesis Block''" "[]"] unfolding g by blast+
    from v have "passes Sum256 (NewProofOfWork ?g) (Nonce ?g)"
      by (simp add: Validate_iff block_NewProofOfWork)
    then show ?thesis using v h by (simp add: passes_def)
  qed
  from g d p v show ?thesis by blast
qed

text \<open>
  The genesis block mined with \<open>third_digest\<close> at time 1700000000.
\<close>

theorem genesis_block_mined_witness:
  "Validate third_digest (NewProofOfWork (NewGenesisBlock third_digest 1700000000)) \<and>
   SetBytes (Hash (NewGenesisBlock third_digest 1700000000)) < 2 ^ 232"
proof -
  have "0 \<le> sint (3 :: int64) \<and> (3 :: int64) <s maxNonce \<and>
      passes third_digest (NewProofOfWork (NewGenesisBlock third_digest 1700000000)) 3"
    using passes_third_genesis by (simp add: word_sless_alt maxNonce_def)
  with genesis_block_mined [of third_digest 1700000000 3]
  have "Validate third_digest (NewProofOfWork (NewGenesisBlock third_digest 1700000000)) \<and>
      SetBytes (Hash (NewGenesisBlock third_digest 1700000000)) <
        target (NewProofOfWork (NewGenesisBlock third_digest 1700000000))"
    by blast
  then show ?thesis by (simp only: target_NewProofOfWork)
qed

section \<open>Properties of the gob encoding\<close>

subsection \<open>Signed integers\<close>

lemma and_1_bit0: "(x :: uint64) AND 1 \<noteq> 0 \<longleftrightarrow> bit x 0"
  by (simp add: bit_iff_and_push_bit_not_eq_0)

lemma even_shifted: "bit (push_bit 1 (i::uint64)) 0 = False"
  by (simp only: bit_push_bit_iff) simp

lemma odd_shifted_or: "bit (push_bit 1 (i::uint64) OR 1) 0 = True"
  by (simp add: bit_or_iff)

lemma drop_push: "\<not> bit i 63 \<Longrightarrow> drop_bit 1 (push_bit 1 (i::uint64)) = i"
proof (rule bit_word_eqI)
  fix n assume msb: "\<not> bit i 63" and n: "n < LENGTH(64)"
  show "bit (drop_bit 1 (push_bit 1 i)) n = bit i n"
  proof (cases "n = 63")
    case True
    then show ?thesis using msb
      by (simp only: bit_drop_bit_eq bit_push_bit_iff o_def possible_bit_word) simp
  next
    case False
    then have "1 + n < 64" using n by simp
    then show ?thesis
      by (simp only: bit_drop_bit_eq bit_push_bit_iff o_def possible_bit_word) simp
  qed
qed

lemma drop_push_or: "\<not> bit i 63 \<Longrightarrow> drop_bit 1 (push_bit 1 (i::uint64) OR 1) = i"
proof (rule bit_word_eqI)
  fix n assume msb: "\<not> bit i 63" and n: "n < LENGTH(64)"
  have one: "\<not> bit (1 :: uint64) (1 + n)"
    by (simp add: bit_1_iff)
  show "bit (drop_bit 1 (push_bit 1 i OR 1)) n = bit i n"
  proof (cases "n = 63")
    case True
    then show ?thesis using msb one
      by (simp only: bit_drop_bit_eq bit_or_iff bit_push_bit_iff o_def possible_bit_word) simp
  next
    case False
    then have "1 + n < 64" using n by simp
    then show ?thesis using one
      by (simp only: bit_drop_bit_eq bit_or_iff bit_push_bit_iff o_def possible_bit_word) simp
  qed
qed

lemma toInt_encode:
  fixes i :: int64
  shows "toInt (if sint i < 0 then push_bit 1 (NOT i) OR 1 else push_bit 1 i) = i"
proof (cases "sint i < 0")
  case True
  then have "bit i 63" using bit_last_iff [of i] by simp
  then have "\<not> bit (NOT i) 63" by (simp add: bit_not_iff)
  then have "drop_bit 1 (push_bit 1 (NOT i) OR 1) = NOT i" by (rule drop_push_or)
  moreover have "toInt (push_bit 1 (NOT i) OR 1) = NOT (drop_bit 1 (push_bit 1 (NOT i) OR 1))"
    using odd_shifted_or [of "NOT i"] by (simp only: toInt_def and_1_bit0 if_True)
  ultimately have "toInt (push_bit 1 (NOT i) OR 1) = i" by simp
  then show ?thesis using True by (simp only: if_True)
next
  case False
  then have "\<not> bit i 63" using bit_last_iff [of i] by simp
  then have "drop_bit 1 (push_bit 1 i) = i" by (rule drop_push)
  moreover have "toInt (push_bit 1 i) = drop_bit 1 (push_bit 1 i)"
    using even_shifted [of i] by (simp only: toInt_def and_1_bit0 if_False)
  ultimately have "toInt (push_bit 1 i) = i" by simp
  then show ?thesis using False by (simp only: if_False)
qed

subsection \<open>Unsigned integers\<close>

lemma uint_ucast_byte: "uint (ucast (b :: byte) :: uint64) = uint b"
  by (simp add: uint_up_ucast is_up)

lemma uint_shift_or:
  fixes x :: uint64 and b :: byte
  assumes "uint x < 2 ^ 56"
  shows "uint (push_bit 8 x OR ucast b) = uint x * 256 + uint b"
proof -
  have disj: "push_bit 8 x AND (ucast b :: uint64) = 0"
    by (rule bit_word_eqI) (auto simp: bit_simps dest: bit_imp_le_length)
  have "uint x * uint (256 :: uint64) < 2 ^ LENGTH(64)"
    using assms by simp
  then have "uint (x * 256) = uint x * uint (256 :: uint64)"
    by (simp only: uint_mult_lem)
  then have m: "uint (push_bit 8 x) = uint x * 256"
    by (simp add: push_bit_eq_mult)
  have "uint b < 256" using uint_bounded [of b] by simp
  then have "uint (push_bit 8 x) + uint (ucast b :: uint64) < 2 ^ LENGTH(64)"
    using assms by (simp add: m uint_ucast_byte)
  then have "uint (push_bit 8 x + ucast b) = uint (push_bit 8 x) + uint (ucast b :: uint64)"
    by (simp only: uint_add_lem)
  then show ?thesis
    by (simp add: disjunctive_add_eq_or [OF disj, symmetric] m uint_ucast_byte)
qed

lemma be_word_snoc: "be_word (bs @ [b]) = push_bit 8 (be_word bs) OR ucast b"
  by (simp add: be_word_def)

lemma uint_be_word: "length bs \<le> 8 \<Longrightarrow> uint (be_word bs) = SetBytes bs"
proof (induction bs rule: rev_induct)
  case Nil
  show ?case by (simp add: be_word_def SetBytes_def)
next
  case (snoc b bs)
  then have ih: "uint (be_word bs) = SetBytes bs" and len: "length bs \<le> 7" by simp_all
  have "SetBytes bs < 256 ^ length bs" using SetBytes_bounds [of bs] by simp
  also have "(256 :: int) ^ length bs \<le> 256 ^ 7"
    using len by (intro power_increasing) simp_all
  finally have "uint (be_word bs) < 2 ^ 56" by (simp add: ih)
  then have "uint (push_bit 8 (be_word bs) OR ucast b) = uint (be_word bs) * 256 + uint b"
    by (rule uint_shift_or)
  then show ?case by (simp only: be_word_snoc ih SetBytes_snoc)
qed

lemma byte_of_nat: "n < 256 \<Longrightarrow> uint (of_nat n :: byte) = int n"
  by (simp add: uint_nat unat_of_nat)

lemma SetBytes_be_bytes: "SetBytes (be_bytes n) = int n"
proof (induction n rule: be_bytes.induct)
  case (1 n)
  show ?case
  proof (cases "n = 0")
    case True
    then show ?thesis by (subst be_bytes.simps) (simp add: SetBytes_Nil)
  next
    case False
    have "uint (of_nat (n mod 256) :: byte) = int (n mod 256)"
      by (rule byte_of_nat) simp
    moreover have "SetBytes (be_bytes (n div 256)) = int (n div 256)"
      using False by (rule "1.IH")
    moreover have "be_bytes n = be_bytes (n div 256) @ [of_nat (n mod 256)]"
      using False by (subst be_bytes.simps) simp
    ultimately have "SetBytes (be_bytes n) = int (n div 256) * 256 + int (n mod 256)"
      by (simp only: SetBytes_snoc)
    then show ?thesis by (simp add: zmod_int zdiv_int)
  qed
qed

lemma length_be_bytes: "n < 256 ^ k \<Longrightarrow> length (be_bytes n) \<le> k"
proof (induction n arbitrary: k rule: be_bytes.induct)
  case (1 n)
  show ?case
  proof (cases "n = 0")
    case True
    then show ?thesis by (subst be_bytes.simps) simp
  next
    case False
    then obtain j where k: "k = Suc j" using "1.prems" by (cases k) auto
    then have "n div 256 < 256 ^ j" using "1.prems" by (simp add: less_mult_imp_div_less)
    then have "length (be_bytes (n div 256)) \<le> j" using False "1.IH" by blast
    moreover have "be_bytes n = be_bytes (n div 256) @ [of_nat (n mod 256)]"
      using False by (subst be_bytes.simps) simp
    ultimately show ?thesis using k by simp
  qed
qed

lemma be_bytes_nonempty: "0 < n \<Longrightarrow> be_bytes n \<noteq> []"
proof -
  assume "0 < n"
  then have "be_bytes n = be_bytes (n div 256) @ [of_nat (n mod 256)]"
    by (subst be_bytes.simps) simp
  then show ?thesis by (metis snoc_eq_iff_butlast)
qed

lemma length_be_bytes_word: "length (be_bytes (unat (x :: uint64))) \<le> 8"
proof -
  have "unat x < 2 ^ LENGTH(64)" by (rule unsigned_less)
  also have "(2 :: nat) ^ LENGTH(64) = 256 ^ 8" by simp
  finally show ?thesis by (rule length_be_bytes)
qed

lemma be_word_be_bytes: "be_word (be_bytes (unat (x :: uint64))) = x"
proof -
  have "uint (be_word (be_bytes (unat x))) = SetBytes (be_bytes (unat x))"
    using length_be_bytes_word by (rule uint_be_word)
  also have "\<dots> = int (unat x)" by (rule SetBytes_be_bytes)
  also have "\<dots> = uint x" by (rule uint_nat [symmetric])
  finally show ?thesis by (rule unsigned_word_eqI)
qed

lemma count_byte:
  assumes "1 \<le> n" "n \<le> 8"
  shows "\<not> (- of_nat n :: byte) \<le> 0x7F" and "nat (- sint (- of_nat n :: byte)) = n"
proof -
  have n: "n \<in> {1, 2, 3, 4, 5, 6, 7, 8}"
    using assms by auto
  then show "\<not> (- of_nat n :: byte) \<le> 0x7F"
    by (elim insertE emptyE)
       (simp_all add: word_le_nat_alt unsigned_minus_1_eq_mask mask_eq_exp_minus_1)
  from n show "nat (- sint (- of_nat n :: byte)) = n"
    by (elim insertE emptyE) simp_all
qed

lemma small_uint:
  fixes x :: uint64
  assumes "x \<le> 0x7F"
  shows "(ucast x :: byte) \<le> 0x7F" and "(ucast (ucast x :: byte) :: uint64) = x"
proof -
  have u: "unat x \<le> 127" using assms by (simp add: word_le_nat_alt)
  then have "unat x < 2 ^ 8" by simp
  then have t: "take_bit LENGTH(8) (unat x) = unat x"
    by (simp add: take_bit_nat_eq_self)
  have "unat (ucast x :: byte) = take_bit LENGTH(8) (unat x)"
    by (rule unsigned_ucast_eq)
  then have e: "unat (ucast x :: byte) = unat x"
    by (simp only: t)
  show "(ucast x :: byte) \<le> 0x7F"
    using u by (simp add: word_le_nat_alt e)
  have "unat x < 2 ^ LENGTH(64)" using u by simp
  then have t': "take_bit LENGTH(64) (unat x) = unat x"
    by (simp only: take_bit_nat_eq_self)
  have "unat (ucast (ucast x :: byte) :: uint64) = take_bit LENGTH(64) (unat (ucast x :: byte))"
    by (rule unsigned_ucast_eq)
  then have "unat (ucast (ucast x :: byte) :: uint64) = unat x"
    by (simp only: e t')
  then show "(ucast (ucast x :: byte) :: uint64) = x"
    by (rule unsigned_word_eqI)
qed

lemma large_uint_bytes:
  fixes x :: uint64
  assumes "\<not> x \<le> 0x7F"
  shows "1 \<le> length (be_bytes (unat x))" and "length (be_bytes (unat x)) \<le> 8"
proof -
  have "0 < unat x" using assms by (simp add: word_le_nat_alt)
  then have "be_bytes (unat x) \<noteq> []" by (rule be_bytes_nonempty)
  then show "1 \<le> length (be_bytes (unat x))" by (cases "be_bytes (unat x)") simp_all
  show "length (be_bytes (unat x)) \<le> 8" by (rule length_be_bytes_word)
qed

lemma decodeUint_counted:
  assumes "1 \<le> length bs" "length bs \<le> 8"
  shows "decodeUint ((- of_nat (length bs)) # bs @ rest) = Inr (be_word bs, rest)"
  using assms count_byte [OF assms] by (simp add: decodeUint_def Let_def)

lemma decodeUintReader_counted:
  assumes "1 \<le> length bs" "length bs \<le> 8"
  shows "decodeUintReader ((- of_nat (length bs)) # bs @ rest) = Inr (be_word bs, rest)"
  using assms count_byte [OF assms] by (simp add: decodeUintReader_def Let_def)

lemma decodeUint_encodeUint: "decodeUint (encodeUint x @ rest) = Inr (x, rest)"
proof (cases "x \<le> 0x7F")
  case True
  then show ?thesis
    by (simp add: encodeUint_def decodeUint_def small_uint)
next
  case False
  then show ?thesis
    using decodeUint_counted [OF large_uint_bytes [OF False], of rest]
    by (simp add: encodeUint_def Let_def be_word_be_bytes)
qed

lemma decodeUintReader_encodeUint: "decodeUintReader (encodeUint x @ rest) = Inr (x, rest)"
proof (cases "x \<le> 0x7F")
  case True
  then show ?thesis
    by (simp add: encodeUint_def decodeUintReader_def small_uint)
next
  case False
  then show ?thesis
    using decodeUintReader_counted [OF large_uint_bytes [OF False], of rest]
    by (simp add: encodeUint_def Let_def be_word_be_bytes)
qed

lemma decodeInt_encodeInt: "decodeInt (encodeInt i @ rest) = Inr (i, rest)"
  by (simp only: decodeInt_def encodeInt_def decodeUint_encodeUint toInt_encode sum.case prod.case)

lemma nextInt_encodeInt: "nextInt (encodeInt i @ rest) = Inr (i, rest)"
  by (simp only: nextInt_def encodeInt_def decodeUintReader_encodeUint toInt_encode sum.case prod.case)

subsection \<open>Byte slices and messages\<close>

lemma sint_of_nat_small:
  assumes "n < 2 ^ 63"
  shows "sint (of_nat n :: uint64) = int n" and "unat (of_nat n :: uint64) = n"
proof -
  have "n < 2 ^ LENGTH(64)" using assms by simp
  then show u: "unat (of_nat n :: uint64) = n"
    by (simp only: unat_of_nat mod_less)
  have "uint (of_nat n :: uint64) = int n" by (simp only: uint_nat u)
  moreover have "signed_take_bit 63 (int n) = int n"
    using assms by (intro signed_take_bit_int_eq_self) simp_all
  ultimately show "sint (of_nat n :: uint64) = int n"
    by (simp add: sint_uint)
qed

lemma decUint8Slice_encoded:
  assumes "length b < tooBig"
  shows "decUint8Slice (encodeUint (of_nat (length b)) @ b @ rest) = Inr (b, rest)"
proof -
  have "length b < 2 ^ 63" using assms by (simp add: tooBig_def)
  then have "sint (of_nat (length b) :: uint64) = int (length b)"
    by (rule sint_of_nat_small)
  then show ?thesis using assms
    by (simp add: decUint8Slice_def decodeUint_encodeUint Let_def)
qed

lemma recvMessage_written:
  assumes "length m < tooBig"
  shows "recvMessage (encodeUint (of_nat (length m)) @ m @ rest) = Inr (m, rest)"
proof -
  have "length m < 2 ^ 63" using assms by (simp add: tooBig_def)
  then have "unat (of_nat (length m) :: uint64) = length m"
    by (rule sint_of_nat_small)
  then show ?thesis using assms
    by (simp add: recvMessage_def decodeUintReader_encodeUint)
qed

lemma typeDefinition_bytes:
  "typeDefinition =
     [255, 129, 3, 1, 1, 5, 66, 108, 111, 99, 107, 1, 255, 130, 0, 1, 5,
      1, 9, 84, 105, 109, 101, 115, 116, 97, 109, 112, 1, 4, 0,
      1, 4, 68, 97, 116, 97, 1, 10, 0,
      1, 13, 80, 114, 101, 118, 66, 108, 111, 99, 107, 72, 97, 115, 104, 1, 10, 0,
      1, 4, 72, 97, 115, 104, 1, 10, 0,
      1, 5, 78, 111, 110, 99, 101, 1, 4, 0,
      0, 0]"
  by (simp add: typeDefinition_def encodeWireStruct_def BlockId_def BlockFields_def
      encodeFieldType_def encodeString_def encodeInt_def encodeUint_def bytes_of_def
      Let_def be_bytes.simps)

lemma length_typeDefinition: "length typeDefinition = 79"
  by (simp add: typeDefinition_bytes)

subsection \<open>The fields of a block\<close>

lemma encodeUint_nonempty: "encodeUint x \<noteq> []"
  by (simp add: encodeUint_def Let_def)

lemma delta_word:
  assumes "1 \<le> d" "d \<le> 5"
  shows "sint (of_int d :: uint64) = d"
proof -
  have "d \<in> {1, 2, 3, 4, 5}" using assms by auto
  then show ?thesis by (elim insertE emptyE) simp_all
qed

lemma decodeStruct_field:
  assumes "- 1 \<le> fn" "fn < field" "field < 5"
    and "decodeField field blk (payload @ rest) = Inr (blk', rest)"
  shows "decodeStruct fn blk (encodeUint (of_int (field - fn)) @ payload @ rest) =
           decodeStruct field blk' rest"
proof -
  have d: "sint (of_int (field - fn) :: uint64) = field - fn"
    using assms(1-3) by (intro delta_word) simp_all
  show ?thesis
    using assms encodeUint_nonempty [of "of_int (field - fn)"]
    by (subst decodeStruct.simps) (simp add: decodeUint_encodeUint d Let_def del: of_int_diff)
qed

lemma update_same:
  "Timestamp blk = t \<Longrightarrow> blk\<lparr>Timestamp := t\<rparr> = blk"
  "Data blk = d \<Longrightarrow> blk\<lparr>Data := d\<rparr> = blk"
  "PrevBlockHash blk = p \<Longrightarrow> blk\<lparr>PrevBlockHash := p\<rparr> = blk"
  "Hash blk = h \<Longrightarrow> blk\<lparr>Hash := h\<rparr> = blk"
  "Nonce blk = n \<Longrightarrow> blk\<lparr>Nonce := n\<rparr> = blk"
  by (cases blk; simp)+

lemma decodeStruct_end: "decodeStruct fn blk (encodeUint 0) = Inr blk"
  using decodeUint_encodeUint [of 0 "[]"] encodeUint_nonempty [of 0]
  by (subst decodeStruct.simps) (simp add: Let_def)

lemma decodeField_int:
  "decodeField 0 blk (encodeInt v @ rest) = Inr (blk\<lparr>Timestamp := v\<rparr>, rest)"
  "decodeField 4 blk (encodeInt v @ rest) = Inr (blk\<lparr>Nonce := v\<rparr>, rest)"
  by (simp_all add: decodeField_def decodeInt_encodeInt)

lemma decodeField_bytes:
  assumes "length v < tooBig"
  shows "decodeField 1 blk (encodeUint (of_nat (length v)) @ v @ rest) = Inr (blk\<lparr>Data := v\<rparr>, rest)"
    and "decodeField 2 blk (encodeUint (of_nat (length v)) @ v @ rest) = Inr (blk\<lparr>PrevBlockHash := v\<rparr>, rest)"
    and "decodeField 3 blk (encodeUint (of_nat (length v)) @ v @ rest) = Inr (blk\<lparr>Hash := v\<rparr>, rest)"
  using decUint8Slice_encoded [OF assms, of rest] by (simp_all add: decodeField_def)

lemma enc_fieldnum:
  "snd (encInt fn field v) = (if v = 0 then fn else field)"
  "snd (encUint8Array fn field b) = (if b = [] then fn else field)"
  by (simp_all add: encInt_def encUint8Array_def)

lemma decode_Timestamp:
  assumes "Timestamp blk = 0"
  shows "decodeStruct (- 1) blk (fst (encInt (- 1) 0 v) @ rest) =
           decodeStruct (snd (encInt (- 1) 0 v)) (blk\<lparr>Timestamp := v\<rparr>) rest"
proof (cases "v = 0")
  case True
  then show ?thesis using assms by (simp add: encInt_def update_same)
next
  case False
  then show ?thesis
    using decodeStruct_field [of "- 1" 0 blk "encodeInt v" rest, OF _ _ _ decodeField_int(1)]
    by (simp add: encInt_def del: of_int_diff)
qed

lemma decode_Nonce:
  assumes "Nonce blk = 0" "- 1 \<le> fn" "fn < 4"
  shows "decodeStruct fn blk (fst (encInt fn 4 v) @ rest) =
           decodeStruct (snd (encInt fn 4 v)) (blk\<lparr>Nonce := v\<rparr>) rest"
proof (cases "v = 0")
  case True
  then show ?thesis using assms by (simp add: encInt_def update_same)
next
  case False
  then show ?thesis
    using decodeStruct_field [of fn 4 blk "encodeInt v" rest, OF _ _ _ decodeField_int(2)] assms
    by (simp add: encInt_def del: of_int_diff)
qed

lemma decode_Data:
  assumes "Data blk = []" "- 1 \<le> fn" "fn < 1" "length v < tooBig"
  shows "decodeStruct fn blk (fst (encUint8Array fn 1 v) @ rest) =
           decodeStruct (snd (encUint8Array fn 1 v)) (blk\<lparr>Data := v\<rparr>) rest"
proof (cases "v = []")
  case True
  then show ?thesis using assms by (simp add: encUint8Array_def update_same)
next
  case False
  then show ?thesis
    using decodeStruct_field [of fn 1 blk "encodeUint (of_nat (length v)) @ v" rest]
      decodeField_bytes(1) [OF assms(4), of blk rest] assms
    by (simp add: encUint8Array_def del: of_int_diff)
qed

lemma decode_PrevBlockHash:
  assumes "PrevBlockHash blk = []" "- 1 \<le> fn" "fn < 2" "length v < tooBig"
  shows "decodeStruct fn blk (fst (encUint8Array fn 2 v) @ rest) =
           decodeStruct (snd (encUint8Array fn 2 v)) (blk\<lparr>PrevBlockHash := v\<rparr>) rest"
proof (cases "v = []")
  case True
  then show ?thesis using assms by (simp add: encUint8Array_def update_same)
next
  case False
  then show ?thesis
    using decodeStruct_field [of fn 2 blk "encodeUint (of_nat (length v)) @ v" rest]
      decodeField_bytes(2) [OF assms(4), of blk rest] assms
    by (simp add: encUint8Array_def del: of_int_diff)
qed

lemma decode_Hash:
  assumes "Hash blk = []" "- 1 \<le> fn" "fn < 3" "length v < tooBig"
  shows "decodeStruct fn blk (fst (encUint8Array fn 3 v) @ rest) =
           decodeStruct (snd (encUint8Array fn 3 v)) (blk\<lparr>Hash := v\<rparr>) rest"
proof (cases "v = []")
  case True
  then show ?thesis using assms by (simp add: encUint8Array_def update_same)
next
  case False
  then show ?thesis
    using decodeStruct_field [of fn 3 blk "encodeUint (of_nat (length v)) @ v" rest]
      decodeField_bytes(3) [OF assms(4), of blk rest] assms
    by (simp add: encUint8Array_def del: of_int_diff)
qed

subsection \<open>Whole blocks\<close>

lemma decodeStruct_encodeStruct:
  assumes "length (Data b) < tooBig" "length (PrevBlockHash b) < tooBig" "length (Hash b) < tooBig"
  shows "decodeStruct (- 1) zeroBlock (encodeStruct b) = Inr b"
proof -
  let ?e0 = "encInt (- 1) 0 (Timestamp b)"
  let ?e1 = "encUint8Array (snd ?e0) 1 (Data b)"
  let ?e2 = "encUint8Array (snd ?e1) 2 (PrevBlockHash b)"
  let ?e3 = "encUint8Array (snd ?e2) 3 (Hash b)"
  let ?e4 = "encInt (snd ?e3) 4 (Nonce b)"
  let ?b0 = "zeroBlock\<lparr>Timestamp := Timestamp b\<rparr>"
  let ?b1 = "?b0\<lparr>Data := Data b\<rparr>"
  let ?b2 = "?b1\<lparr>PrevBlockHash := PrevBlockHash b\<rparr>"
  let ?b3 = "?b2\<lparr>Hash := Hash b\<rparr>"
  let ?b4 = "?b3\<lparr>Nonce := Nonce b\<rparr>"
  have f0: "- 1 \<le> snd ?e0" "snd ?e0 < 1" by (simp_all add: enc_fieldnum)
  have f1: "- 1 \<le> snd ?e1" "snd ?e1 < 2" using f0 by (simp_all add: enc_fieldnum(2))
  have f2: "- 1 \<le> snd ?e2" "snd ?e2 < 3" using f1 by (simp_all add: enc_fieldnum(2))
  have f3: "- 1 \<le> snd ?e3" "snd ?e3 < 4" using f2 by (simp_all add: enc_fieldnum(2))
  have enc: "encodeStruct b = fst ?e0 @ fst ?e1 @ fst ?e2 @ fst ?e3 @ fst ?e4 @ encodeUint 0"
    by (simp add: encodeStruct_def Let_def case_prod_beta)
  have "decodeStruct (- 1) zeroBlock (encodeStruct b) =
      decodeStruct (snd ?e0) ?b0 (fst ?e1 @ fst ?e2 @ fst ?e3 @ fst ?e4 @ encodeUint 0)"
    unfolding enc by (rule decode_Timestamp) (simp add: zeroBlock_def)
  also have "\<dots> = decodeStruct (snd ?e1) ?b1 (fst ?e2 @ fst ?e3 @ fst ?e4 @ encodeUint 0)"
    using f0 assms(1) by (intro decode_Data) (simp_all add: zeroBlock_def)
  also have "\<dots> = decodeStruct (snd ?e2) ?b2 (fst ?e3 @ fst ?e4 @ encodeUint 0)"
    using f1 assms(2) by (intro decode_PrevBlockHash) (simp_all add: zeroBlock_def)
  also have "\<dots> = decodeStruct (snd ?e3) ?b3 (fst ?e4 @ encodeUint 0)"
    using f2 assms(3) by (intro decode_Hash) (simp_all add: zeroBlock_def)
  also have "\<dots> = decodeStruct (snd ?e4) ?b4 (encodeUint 0)"
    using f3 decode_Nonce [of ?b3 "snd ?e3" "Nonce b" "encodeUint 0"] by (simp add: zeroBlock_def)
  also have "\<dots> = Inr ?b4" by (rule decodeStruct_end)
  also have "?b4 = b" by (cases b) (simp add: zeroBlock_def)
  finally show ?thesis .
qed

lemma length_enc:
  "length b \<le> length (fst (encUint8Array fn field b))"
  by (simp add: encUint8Array_def)

lemma length_encodeStruct:
  "length (Data b) \<le> length (encodeStruct b)"
  "length (PrevBlockHash b) \<le> length (encodeStruct b)"
  "length (Hash b) \<le> length (encodeStruct b)"
proof -
  let ?e0 = "encInt (- 1) 0 (Timestamp b)"
  let ?e1 = "encUint8Array (snd ?e0) 1 (Data b)"
  let ?e2 = "encUint8Array (snd ?e1) 2 (PrevBlockHash b)"
  let ?e3 = "encUint8Array (snd ?e2) 3 (Hash b)"
  let ?e4 = "encInt (snd ?e3) 4 (Nonce b)"
  have enc: "encodeStruct b = fst ?e0 @ fst ?e1 @ fst ?e2 @ fst ?e3 @ fst ?e4 @ encodeUint 0"
    by (simp add: encodeStruct_def Let_def case_prod_beta)
  have "length (encodeStruct b) = length (fst ?e0) + length (fst ?e1) + length (fst ?e2) +
      length (fst ?e3) + length (fst ?e4) + length (encodeUint 0)"
    unfolding enc by simp
  then show "length (Data b) \<le> length (encodeStruct b)"
    "length (PrevBlockHash b) \<le> length (encodeStruct b)"
    "length (Hash b) \<le> length (encodeStruct b)"
    using length_enc [of "Data b" "snd ?e0" 1] length_enc [of "PrevBlockHash b" "snd ?e1" 2]
      length_enc [of "Hash b" "snd ?e2" 3]
    by linarith+
qed

lemma Encode_eq:
  "Encode b =
     (if tooBig \<le> length (encodeInt BlockId @ encodeStruct b) then Inl MessageTooBig
      else Inr (encodeUint 79 @ typeDefinition @
                encodeUint (of_nat (length (encodeInt BlockId @ encodeStruct b))) @
                encodeInt BlockId @ encodeStruct b))"
  by (simp add: Encode_def writeMessage_def length_typeDefinition tooBig_def)

lemma Decode_Encode:
  assumes "Encode b = Inr d"
  shows "Decode d = Inr b"
proof -
  let ?m2 = "encodeInt BlockId @ encodeStruct b"
  have small: "length ?m2 < tooBig"
    using assms by (simp add: Encode_eq split: if_splits)
  then have d: "d = encodeUint (of_nat (length typeDefinition)) @ typeDefinition @
      encodeUint (of_nat (length ?m2)) @ ?m2"
    using assms by (simp add: Encode_eq length_typeDefinition)
  have fields: "length (Data b) < tooBig" "length (PrevBlockHash b) < tooBig"
    "length (Hash b) < tooBig"
    using small length_encodeStruct [of b] by simp_all
  have r1: "recvMessage d = Inr (typeDefinition, encodeUint (of_nat (length ?m2)) @ ?m2)"
    unfolding d by (rule recvMessage_written) (simp add: length_typeDefinition tooBig_def)
  have r2: "recvMessage (encodeUint (of_nat (length ?m2)) @ ?m2) = Inr (?m2, [])"
    using recvMessage_written [OF small, of "[]"] by simp
  have i1: "nextInt typeDefinition = Inr (- BlockId, encodeWireStruct ''Block'' BlockId BlockFields)"
    unfolding typeDefinition_def by (rule nextInt_encodeInt)
  have i2: "nextInt ?m2 = Inr (BlockId, encodeStruct b)"
    by (rule nextInt_encodeInt)
  have neg: "\<not> 0 \<le> sint (- BlockId)" and pos: "\<not> sint BlockId < 0"
    by (simp_all add: BlockId_def)
  have same: "typeDefinition = typeDefinition \<longleftrightarrow> True" "BlockId = BlockId \<longleftrightarrow> True"
    by simp_all
  show ?thesis
    by (simp only: Decode_def r1 r2 i1 i2 neg pos sum.case prod.case if_False if_True
        same not_True_eq_False decodeStruct_encodeStruct [OF fields])
qed

subsection \<open>Serialize and DeseralizeBlock\<close>

lemma length_encodeUint: "length (encodeUint x) \<le> 9"
  using length_be_bytes_word [of x] by (simp add: encodeUint_def Let_def)

lemma length_encodeInt: "length (encodeInt i) \<le> 9"
  unfolding encodeInt_def by (rule length_encodeUint)

lemma length_encInt: "length (fst (encInt fn field v)) \<le> 18"
  using length_encodeUint [of "of_int (field - fn)"] length_encodeInt [of v]
  by (simp add: encInt_def del: of_int_diff)

lemma length_encUint8Array: "length (fst (encUint8Array fn field b)) \<le> length b + 18"
  using length_encodeUint [of "of_int (field - fn)"] length_encodeUint [of "of_nat (length b)"]
  by (simp add: encUint8Array_def del: of_int_diff)

lemma length_encodeStruct_le:
  "length (encodeStruct b) \<le> length (Data b) + length (PrevBlockHash b) + length (Hash b) + 99"
proof -
  let ?e0 = "encInt (- 1) 0 (Timestamp b)"
  let ?e1 = "encUint8Array (snd ?e0) 1 (Data b)"
  let ?e2 = "encUint8Array (snd ?e1) 2 (PrevBlockHash b)"
  let ?e3 = "encUint8Array (snd ?e2) 3 (Hash b)"
  let ?e4 = "encInt (snd ?e3) 4 (Nonce b)"
  have enc: "encodeStruct b = fst ?e0 @ fst ?e1 @ fst ?e2 @ fst ?e3 @ fst ?e4 @ encodeUint 0"
    by (simp add: encodeStruct_def Let_def case_prod_beta)
  have "length (encodeStruct b) = length (fst ?e0) + length (fst ?e1) + length (fst ?e2) +
      length (fst ?e3) + length (fst ?e4) + length (encodeUint 0)"
    unfolding enc by simp
  then show ?thesis
    using length_encInt [of "- 1" 0 "Timestamp b"] length_encInt [of "snd ?e3" 4 "Nonce b"]
      length_encUint8Array [of "snd ?e0" 1 "Data b"]
      length_encUint8Array [of "snd ?e1" 2 "PrevBlockHash b"]
      length_encUint8Array [of "snd ?e2" 3 "Hash b"] length_encodeUint [of 0]
    by linarith
qed

lemma length_Serialize:
  assumes "Serialize b = Inr d"
  shows "length d \<le> length (Data b) + length (PrevBlockHash b) + length (Hash b) + 206"
proof -
  let ?m2 = "encodeInt BlockId @ encodeStruct b"
  have "d = encodeUint 79 @ typeDefinition @ encodeUint (of_nat (length ?m2)) @ ?m2"
    using assms by (simp add: Serialize_def Encode_eq split: if_splits)
  then have "length d = length (encodeUint 79) + 79 + length (encodeUint (of_nat (length ?m2))) +
      length (encodeInt BlockId) + length (encodeStruct b)"
    by (simp add: length_typeDefinition)
  then show ?thesis
    using length_encodeUint [of 79] length_encodeUint [of "of_nat (length ?m2)"]
      length_encodeInt [of BlockId] length_encodeStruct_le [of b]
    by linarith
qed

lemma Serialize_total:
  assumes "length (Data b) + length (PrevBlockHash b) + length (Hash b) + 108 < tooBig"
  shows "\<exists>d. Serialize b = Inr d"
proof -
  have "length (encodeInt BlockId @ encodeStruct b) < tooBig"
    using assms length_encodeInt [of BlockId] length_encodeStruct_le [of b] by simp
  then show ?thesis by (simp add: Serialize_def Encode_eq)
qed

lemma Serialize_small:
  assumes "length (Data b) + length (PrevBlockHash b) + length (Hash b) < 2 ^ 30"
  obtains encoded where "Serialize b = Inr encoded" "length encoded \<le> MaxValueSize"
proof -
  have "length (Data b) + length (PrevBlockHash b) + length (Hash b) + 108 < tooBig"
    using assms by (simp add: tooBig_def)
  then obtain encoded where e: "Serialize b = Inr encoded"
    using Serialize_total by blast
  have "length encoded \<le> MaxValueSize"
    using length_Serialize [OF e] assms by (simp add: MaxValueSize_def)
  with e show ?thesis using that by blast
qed

lemma DeseralizeBlock_Serialize:
  assumes "Serialize b = Inr d"
  shows "DeseralizeBlock d = Inr b"
proof -
  have "Encode b = Inr d" using assms by (simp add: Serialize_def split: sum.splits)
  then have "Decode d = Inr b" by (rule Decode_Encode)
  then show ?thesis by (simp add: DeseralizeBlock_def)
qed

lemma DeseralizeBlock_nil: "DeseralizeBlock [] = Inl (GobError EOF)"
  by (simp add: DeseralizeBlock_def Decode_def recvMessage_def decodeUintReader_def)

lemma Serialize_plain_block:
  "Serialize plain_block =
     Inr ([79] @ typeDefinition @ [16, 255, 130, 1, 252, 202, 167, 226, 0, 3, 3, 1, 2, 3, 1, 9, 0])"
  by (simp add: Serialize_def Encode_eq plain_block_def tooBig_def BlockId_def
      encodeStruct_def encInt_def encUint8Array_def encodeInt_def encodeUint_def Let_def
      be_bytes.simps)

text \<open>
  Claim C4. Whatever \<open>Serialize\<close> returns for a block, \<open>DeseralizeBlock\<close> turns back into
  that block, field for field; and \<open>Serialize\<close> does return for every block whose byte
  fields together stay below the message bound of gob, empty fields included. A Go byte
  slice is a list here, so a \<open>nil\<close> slice and an empty one are the same value: gob leaves
  an empty slice out and the decoder leaves the field \<open>nil\<close>.
\<close>

theorem serialization_round_trip:
  "(Serialize b = Inr d \<longrightarrow>
      DeseralizeBlock d = Inr b \<and>
      (\<exists>b'. DeseralizeBlock d = Inr b' \<and> Timestamp b' = Timestamp b \<and> Data b' = Data b \<and>
            PrevBlockHash b' = PrevBlockHash b \<and> Hash b' = Hash b \<and> Nonce b' = Nonce b)) \<and>
   (length (Data b) + length (PrevBlockHash b) + length (Hash b) + 108 < tooBig \<longrightarrow>
      (\<exists>d. Serialize b = Inr d \<and> DeseralizeBlock d = Inr b))"
  using DeseralizeBlock_Serialize Serialize_total by blast

text \<open>A block with an empty payload and an empty previous hash, and its bytes.\<close>

theorem serialization_round_trip_witness:
  "DeseralizeBlock ([79] @ typeDefinition @
      [16, 255, 130, 1, 252, 202, 167, 226, 0, 3, 3, 1, 2, 3, 1, 9, 0]) = Inr plain_block \<and>
   Data plain_block = [] \<and> PrevBlockHash plain_block = [] \<and>
   (\<exists>d. Serialize plain_block = Inr d \<and> DeseralizeBlock d = Inr plain_block)"
proof -
  have "length (Data plain_block) + length (PrevBlockHash plain_block) +
      length (Hash plain_block) + 108 < tooBig"
    by (simp add: plain_block_def tooBig_def)
  with serialization_round_trip [of plain_block
      "[79] @ typeDefinition @ [16, 255, 130, 1, 252, 202, 167, 226, 0, 3, 3, 1, 2, 3, 1, 9, 0]"]
    Serialize_plain_block
  show ?thesis by (simp add: plain_block_def)
qed

section \<open>Properties of the store and the chain\<close>

subsection \<open>A hash that was never written\<close>

text \<open>
  Claim C8, as the code has it. \<open>Next\<close> at a hash that is not a key of the bucket gets
  \<open>nil\<close> from \<open>Get\<close>; \<open>DeseralizeBlock\<close> fails on it with gob's \<open>EOF\<close> and ends the process
  through \<open>log.Fatal\<close>. A key that holds an empty record ends the same way. No outcome
  that says "not found" comes back to the caller.
\<close>

theorem Next_absent_key_fatal:
  "(db i blocksBucket = Some b \<and> b (currentHash i) = None \<longrightarrow> Next i = Inl (GobError EOF)) \<and>
   (db i blocksBucket = Some b \<and> b (currentHash i) = Some [] \<longrightarrow> Next i = Inl (GobError EOF))"
  by (auto simp: Next_def Get_def DeseralizeBlock_nil)

text \<open>A bucket without the key, and a bucket holding an empty record under it.\<close>

theorem Next_absent_key_fatal_witness:
  "Next \<lparr>currentHash = [1], db = empty_store\<rparr> = Inl (GobError EOF) \<and>
   Next \<lparr>currentHash = [1], db = blank_store\<rparr> = Inl (GobError EOF)"
  using Next_absent_key_fatal [of "\<lparr>currentHash = [1], db = empty_store\<rparr>" Map.empty]
    Next_absent_key_fatal [of "\<lparr>currentHash = [1], db = blank_store\<rparr>" "[[1] \<mapsto> []]"]
  by (simp add: empty_store_def blank_store_def)

text \<open>
  Claim C8 as stated fails: the lookup of a hash never written ends the process, and what
  it ends with does not differ from the failure to decode a stored empty record.
\<close>

theorem Next_not_found_counterexample:
  "Next \<lparr>currentHash = [1], db = empty_store\<rparr> = Inl (GobError EOF) \<and>
   Next \<lparr>currentHash = [1], db = empty_store\<rparr> = Next \<lparr>currentHash = [1], db = blank_store\<rparr>"
  by (simp add: Next_def Get_def DeseralizeBlock_nil empty_store_def blank_store_def)

subsection \<open>What NewBlockchain and AddBlock write\<close>

lemma length_Hash_NewBlock: "length (Hash (NewBlock H now data prev)) = 32"
proof -
  have "length (snd (Run H pow)) = 32" for pow
    using Rep_byte32 [of "snd (Run_loop H pow 0 zero32)"]
    by (simp add: Run_def case_prod_beta)
  then show ?thesis by (simp add: NewBlock_eq)
qed

lemma key_l: "bytes_of ''l'' = [108]" "length (bytes_of ''l'') = 1"
  by (simp_all add: bytes_of_def)

lemma Hash_NewBlock_not_l: "Hash (NewBlock H now data prev) \<noteq> bytes_of ''l''"
  using length_Hash_NewBlock [of H now data prev] by (auto simp: key_l)

lemma Put_hash:
  assumes "length key = 32"
  shows "Put b key val = (if MaxValueSize < length val then Inl ErrValueTooLarge else Inr (b(key \<mapsto> val)))"
  using assms by (simp add: Put_def MaxKeySize_def)

lemma Put_l:
  assumes "length val = 32"
  shows "Put b (bytes_of ''l'') val = Inr (b(bytes_of ''l'' \<mapsto> val))"
  using assms by (simp add: Put_def MaxKeySize_def MaxValueSize_def key_l)

lemma AddBlock_eq:
  "AddBlock H now data bc =
     (case Db bc blocksBucket of
        None \<Rightarrow> Inl (ErrorNew ''error getting last block, could not find blocks bucket'')
      | Some b \<Rightarrow>
         (case Serialize (NewBlock H now data (Get b (bytes_of ''l''))) of
            Inl err \<Rightarrow> Inl err
          | Inr encoded \<Rightarrow>
              if MaxValueSize < length encoded then Inl (BoltError ErrValueTooLarge)
              else Inr \<lparr>tip = Hash (NewBlock H now data (Get b (bytes_of ''l''))),
                        Db = (Db bc)(blocksBucket \<mapsto>
                          b(Hash (NewBlock H now data (Get b (bytes_of ''l''))) \<mapsto> encoded,
                            bytes_of ''l'' \<mapsto> Hash (NewBlock H now data (Get b (bytes_of ''l''))))) \<rparr>))"
  by (simp add: AddBlock_def Let_def Put_hash Put_l length_Hash_NewBlock
      split: option.split sum.split)

lemma AddBlock_Inr:
  assumes "AddBlock H now data bc = Inr bc'"
  obtains b encoded where "Db bc blocksBucket = Some b"
    and "Serialize (NewBlock H now data (Get b (bytes_of ''l''))) = Inr encoded"
    and "length encoded \<le> MaxValueSize"
    and "bc' = \<lparr>tip = Hash (NewBlock H now data (Get b (bytes_of ''l''))),
                  Db = (Db bc)(blocksBucket \<mapsto>
                    b(Hash (NewBlock H now data (Get b (bytes_of ''l''))) \<mapsto> encoded,
                      bytes_of ''l'' \<mapsto> Hash (NewBlock H now data (Get b (bytes_of ''l'')))))\<rparr>"
  using assms unfolding AddBlock_eq
  by (auto split: option.splits sum.splits if_splits)

lemma AddBlock_succeeds:
  assumes "Db bc blocksBucket = Some b" "length (Get b (bytes_of ''l'')) + length data < 2 ^ 29"
  shows "\<exists>encoded. Serialize (NewBlock H now data (Get b (bytes_of ''l''))) = Inr encoded \<and>
     AddBlock H now data bc =
       Inr \<lparr>tip = Hash (NewBlock H now data (Get b (bytes_of ''l''))),
            Db = (Db bc)(blocksBucket \<mapsto>
              b(Hash (NewBlock H now data (Get b (bytes_of ''l''))) \<mapsto> encoded,
                bytes_of ''l'' \<mapsto> Hash (NewBlock H now data (Get b (bytes_of ''l'')))))\<rparr>"
proof -
  let ?x = "NewBlock H now data (Get b (bytes_of ''l''))"
  have "length (Data ?x) + length (PrevBlockHash ?x) + length (Hash ?x) < 2 ^ 30"
    using assms(2) length_Hash_NewBlock [of H now data "Get b (bytes_of ''l'')"]
    by (simp add: NewBlock_eq bytes_of_def)
  then obtain encoded where "Serialize ?x = Inr encoded" "length encoded \<le> MaxValueSize"
    by (rule Serialize_small)
  then show ?thesis using assms(1) by (simp add: AddBlock_eq)
qed

lemma genesis_fields:
  "Data (NewGenesisBlock H now) = bytes_of ''Genesis Block''"
  "PrevBlockHash (NewGenesisBlock H now) = []"
  "length (Hash (NewGenesisBlock H now)) = 32"
  by (simp_all add: NewGenesisBlock_def length_Hash_NewBlock) (simp_all add: NewBlock_eq)

lemma Serialize_genesis:
  obtains encoded where "Serialize (NewGenesisBlock H now) = Inr encoded"
    and "length encoded \<le> MaxValueSize"
proof -
  have "length (Data (NewGenesisBlock H now)) + length (PrevBlockHash (NewGenesisBlock H now)) +
      length (Hash (NewGenesisBlock H now)) + 108 < tooBig"
    by (simp add: genesis_fields bytes_of_def tooBig_def)
  then obtain encoded where e: "Serialize (NewGenesisBlock H now) = Inr encoded"
    using Serialize_total by blast
  have "length encoded \<le> MaxValueSize"
    using length_Serialize [OF e] by (simp add: genesis_fields bytes_of_def MaxValueSize_def)
  with e show ?thesis using that by blast
qed

lemma NewBlockchain_create:
  assumes "d blocksBucket = None" "Serialize (NewGenesisBlock H now) = Inr encoded"
  shows "NewBlockchain H now d =
     Inr \<lparr>tip = Hash (NewGenesisBlock H now),
          Db = d(blocksBucket \<mapsto> [Hash (NewGenesisBlock H now) \<mapsto> encoded,
                                    bytes_of ''l'' \<mapsto> Hash (NewGenesisBlock H now)])\<rparr>"
proof -
  obtain e where e: "Serialize (NewGenesisBlock H now) = Inr e" "length e \<le> MaxValueSize"
    by (rule Serialize_genesis)
  then have "e = encoded" using assms(2) by simp
  then show ?thesis using assms e
    by (simp add: NewBlockchain_def Let_def Put_hash Put_l genesis_fields)
qed

subsection \<open>An example chain\<close>

lemma Hash_genesis_third:
  "Hash (NewGenesisBlock third_digest 1700000000) = replicate 31 0 @ [26]"
  by (simp add: NewGenesisBlock_def NewBlock_third_digest FormatInt10_def digits10.simps)

lemma chain0_eq:
  "\<exists>e0. NewBlockchain third_digest 1700000000 Map.empty = Inr chain0 \<and>
     chain0 = \<lparr>tip = replicate 31 0 @ [26],
               Db = [blocksBucket \<mapsto> [replicate 31 0 @ [26] \<mapsto> e0,
                                       bytes_of ''l'' \<mapsto> replicate 31 0 @ [26]]]\<rparr>"
proof -
  obtain e0 where e0: "Serialize (NewGenesisBlock third_digest 1700000000) = Inr e0"
    by (rule Serialize_genesis)
  have "NewBlockchain third_digest 1700000000 Map.empty =
      Inr \<lparr>tip = replicate 31 0 @ [26],
           Db = [blocksBucket \<mapsto> [replicate 31 0 @ [26] \<mapsto> e0,
                                   bytes_of ''l'' \<mapsto> replicate 31 0 @ [26]]]\<rparr>"
    using NewBlockchain_create [of Map.empty third_digest 1700000000 e0] e0
    by (simp add: Hash_genesis_third)
  then have "NewBlockchain third_digest 1700000000 Map.empty = Inr chain0 \<and>
      chain0 = \<lparr>tip = replicate 31 0 @ [26],
               Db = [blocksBucket \<mapsto> [replicate 31 0 @ [26] \<mapsto> e0,
                                       bytes_of ''l'' \<mapsto> replicate 31 0 @ [26]]]\<rparr>"
    by (simp add: chain0_def)
  then show ?thesis by blast
qed

lemma chain1_eq:
  "\<exists>e0 e1. AddBlock third_digest 1700000060 ''First Block'' chain0 = Inr chain1 \<and>
     chain1 = \<lparr>tip = replicate 31 0 @ [56],
               Db = [blocksBucket \<mapsto> [replicate 31 0 @ [26] \<mapsto> e0,
                                       replicate 31 0 @ [56] \<mapsto> e1,
                                       bytes_of ''l'' \<mapsto> replicate 31 0 @ [56]]]\<rparr>"
proof -
  obtain e0 where c0: "chain0 = \<lparr>tip = replicate 31 0 @ [26],
      Db = [blocksBucket \<mapsto> [replicate 31 0 @ [26] \<mapsto> e0,
                              bytes_of ''l'' \<mapsto> replicate 31 0 @ [26]]]\<rparr>"
    using chain0_eq by blast
  let ?b = "[replicate 31 0 @ [26] \<mapsto> e0, bytes_of ''l'' \<mapsto> replicate 31 0 @ [26 :: byte]]"
  have b: "Db chain0 blocksBucket = Some ?b" by (simp add: c0)
  have g: "Get ?b (bytes_of ''l'') = replicate 31 0 @ [26]" by (simp add: Get_def)
  have h: "Hash (NewBlock third_digest 1700000060 ''First Block'' (replicate 31 0 @ [26])) =
      replicate 31 0 @ [56]"
    by (simp add: NewBlock_third_digest FormatInt10_def digits10.simps)
  have "length (Get ?b (bytes_of ''l'')) + length ''First Block'' < 2 ^ 29"
    by (simp add: g)
  from AddBlock_succeeds [OF b this, of third_digest 1700000060]
  obtain e1 where "AddBlock third_digest 1700000060 ''First Block'' chain0 =
      Inr \<lparr>tip = replicate 31 0 @ [56],
           Db = (Db chain0)(blocksBucket \<mapsto> ?b(replicate 31 0 @ [56] \<mapsto> e1,
                  bytes_of ''l'' \<mapsto> replicate 31 0 @ [56]))\<rparr>"
    unfolding g h by blast
  moreover have "?b(replicate 31 0 @ [56] \<mapsto> e1, bytes_of ''l'' \<mapsto> replicate 31 0 @ [56]) =
      [replicate 31 0 @ [26] \<mapsto> e0, replicate 31 0 @ [56] \<mapsto> e1,
       bytes_of ''l'' \<mapsto> replicate 31 0 @ [56]]"
    by (auto simp: key_l)
  ultimately have "AddBlock third_digest 1700000060 ''First Block'' chain0 =
      Inr \<lparr>tip = replicate 31 0 @ [56],
           Db = [blocksBucket \<mapsto> [replicate 31 0 @ [26] \<mapsto> e0, replicate 31 0 @ [56] \<mapsto> e1,
                  bytes_of ''l'' \<mapsto> replicate 31 0 @ [56]]]\<rparr>"
    by (simp add: c0)
  then have "AddBlock third_digest 1700000060 ''First Block'' chain0 = Inr chain1 \<and>
      chain1 = \<lparr>tip = replicate 31 0 @ [56],
           Db = [blocksBucket \<mapsto> [replicate 31 0 @ [26] \<mapsto> e0, replicate 31 0 @ [56] \<mapsto> e1,
                  bytes_of ''l'' \<mapsto> replicate 31 0 @ [56]]]\<rparr>"
    by (simp add: chain1_def)
  then show ?thesis by blast
qed

lemma chain2_eq:
  "\<exists>e0 e1 e2. AddBlock third_digest 1700000120 ''Second Block'' chain1 = Inr chain2 \<and>
     chain2 = \<lparr>tip = replicate 31 0 @ [57],
               Db = [blocksBucket \<mapsto> [replicate 31 0 @ [26] \<mapsto> e0,
                                       replicate 31 0 @ [56] \<mapsto> e1,
                                       replicate 31 0 @ [57] \<mapsto> e2,
                                       bytes_of ''l'' \<mapsto> replicate 31 0 @ [57]]]\<rparr>"
proof -
  obtain e0 e1 where c1: "chain1 = \<lparr>tip = replicate 31 0 @ [56],
      Db = [blocksBucket \<mapsto> [replicate 31 0 @ [26] \<mapsto> e0, replicate 31 0 @ [56] \<mapsto> e1,
                              bytes_of ''l'' \<mapsto> replicate 31 0 @ [56]]]\<rparr>"
    using chain1_eq by blast
  let ?b = "[replicate 31 0 @ [26] \<mapsto> e0, replicate 31 0 @ [56] \<mapsto> e1,
      bytes_of ''l'' \<mapsto> replicate 31 0 @ [56 :: byte]]"
  have b: "Db chain1 blocksBucket = Some ?b" by (simp add: c1)
  have g: "Get ?b (bytes_of ''l'') = replicate 31 0 @ [56]" by (simp add: Get_def)
  have h: "Hash (NewBlock third_digest 1700000120 ''Second Block'' (replicate 31 0 @ [56])) =
      replicate 31 0 @ [57]"
    by (simp add: NewBlock_third_digest FormatInt10_def digits10.simps)
  have "length (Get ?b (bytes_of ''l'')) + length ''Second Block'' < 2 ^ 29"
    by (simp add: g)
  from AddBlock_succeeds [OF b this, of third_digest 1700000120]
  obtain e2 where "AddBlock third_digest 1700000120 ''Second Block'' chain1 =
      Inr \<lparr>tip = replicate 31 0 @ [57],
           Db = (Db chain1)(blocksBucket \<mapsto> ?b(replicate 31 0 @ [57] \<mapsto> e2,
                  bytes_of ''l'' \<mapsto> replicate 31 0 @ [57]))\<rparr>"
    unfolding g h by blast
  moreover have "?b(replicate 31 0 @ [57] \<mapsto> e2, bytes_of ''l'' \<mapsto> replicate 31 0 @ [57]) =
      [replicate 31 0 @ [26] \<mapsto> e0, replicate 31 0 @ [56] \<mapsto> e1, replicate 31 0 @ [57] \<mapsto> e2,
       bytes_of ''l'' \<mapsto> replicate 31 0 @ [57]]"
    by (auto simp: key_l)
  ultimately have "AddBlock third_digest 1700000120 ''Second Block'' chain1 = Inr chain2 \<and>
      chain2 = \<lparr>tip = replicate 31 0 @ [57],
           Db = [blocksBucket \<mapsto> [replicate 31 0 @ [26] \<mapsto> e0, replicate 31 0 @ [56] \<mapsto> e1,
                  replicate 31 0 @ [57] \<mapsto> e2, bytes_of ''l'' \<mapsto> replicate 31 0 @ [57]]]\<rparr>"
    by (simp add: c1 chain2_def)
  then show ?thesis by blast
qed

lemma example_run:
  "AddBlocks third_digest [(1700000060, ''First Block''), (1700000120, ''Second Block'')] chain0 =
     Inr chain2"
  "fresh_hashes third_digest [(1700000060, ''First Block''), (1700000120, ''Second Block'')] chain0"
proof -
  obtain e0 where c0': "chain0 = \<lparr>tip = replicate 31 0 @ [26],
               Db = [blocksBucket \<mapsto> [replicate 31 0 @ [26] \<mapsto> e0,
                                       bytes_of ''l'' \<mapsto> replicate 31 0 @ [26]]]\<rparr>"
    using chain0_eq by blast
  obtain e0' e1 where c1: "AddBlock third_digest 1700000060 ''First Block'' chain0 = Inr chain1"
    and c1': "chain1 = \<lparr>tip = replicate 31 0 @ [56],
      Db = [blocksBucket \<mapsto> [replicate 31 0 @ [26] \<mapsto> e0', replicate 31 0 @ [56] \<mapsto> e1,
                              bytes_of ''l'' \<mapsto> replicate 31 0 @ [56]]]\<rparr>"
    using chain1_eq by blast
  obtain e0'' e1' e2 where c2: "AddBlock third_digest 1700000120 ''Second Block'' chain1 = Inr chain2"
    and c2': "chain2 = \<lparr>tip = replicate 31 0 @ [57],
               Db = [blocksBucket \<mapsto> [replicate 31 0 @ [26] \<mapsto> e0'',
                                       replicate 31 0 @ [56] \<mapsto> e1',
                                       replicate 31 0 @ [57] \<mapsto> e2,
                                       bytes_of ''l'' \<mapsto> replicate 31 0 @ [57]]]\<rparr>"
    using chain2_eq by blast
  show "AddBlocks third_digest [(1700000060, ''First Block''), (1700000120, ''Second Block'')] chain0 =
     Inr chain2"
    by (simp add: c1 c2)
  have b0: "Db chain0 blocksBucket = Some [replicate 31 0 @ [26] \<mapsto> e0,
      bytes_of ''l'' \<mapsto> replicate 31 0 @ [26]]"
    by (simp add: c0')
  have b1: "Db chain1 blocksBucket = Some [replicate 31 0 @ [26] \<mapsto> e0',
      replicate 31 0 @ [56] \<mapsto> e1, bytes_of ''l'' \<mapsto> replicate 31 0 @ [56]]"
    by (simp add: c1')
  have t1: "tip chain1 = replicate 31 0 @ [56]" by (simp add: c1')
  have t2: "tip chain2 = replicate 31 0 @ [57]" by (simp add: c2')
  have f0: "[replicate 31 0 @ [26] \<mapsto> e0, bytes_of ''l'' \<mapsto> replicate 31 0 @ [26 :: byte]]
      (replicate 31 0 @ [56]) = None"
    by (simp add: key_l)
  have f1: "[replicate 31 0 @ [26] \<mapsto> e0', replicate 31 0 @ [56] \<mapsto> e1,
      bytes_of ''l'' \<mapsto> replicate 31 0 @ [56 :: byte]] (replicate 31 0 @ [57]) = None"
    by (simp add: key_l)
  show "fresh_hashes third_digest [(1700000060, ''First Block''), (1700000120, ''Second Block'')] chain0"
    by (simp add: c1 c2 b0 b1 t1 t2 key_l)
qed

subsection \<open>Opening a database, adding a block\<close>

text \<open>
  Claim C6. On a database that has the bucket, \<open>NewBlockchain\<close> returns the database as it
  is, with the value under \<open>l\<close> as the tip: no block is mined and nothing is written. On a
  database without the bucket it mines the genesis block and the bucket it creates holds
  exactly the genesis record, under the genesis hash, and that hash under \<open>l\<close>.
\<close>

theorem NewBlockchain_attach_or_create:
  "(d blocksBucket = Some b \<longrightarrow>
      NewBlockchain Sum256 now d = Inr \<lparr>tip = Get b (bytes_of ''l''), Db = d\<rparr>) \<and>
   (d blocksBucket = None \<longrightarrow>
      (\<exists>encoded. Serialize (NewGenesisBlock Sum256 now) = Inr encoded \<and>
         NewBlockchain Sum256 now d =
           Inr \<lparr>tip = Hash (NewGenesisBlock Sum256 now),
                Db = d(blocksBucket \<mapsto> [Hash (NewGenesisBlock Sum256 now) \<mapsto> encoded,
                       bytes_of ''l'' \<mapsto> Hash (NewGenesisBlock Sum256 now)])\<rparr>))"
proof (intro conjI impI)
  assume "d blocksBucket = Some b"
  then show "NewBlockchain Sum256 now d = Inr \<lparr>tip = Get b (bytes_of ''l''), Db = d\<rparr>"
    by (simp add: NewBlockchain_def)
next
  assume none: "d blocksBucket = None"
  obtain encoded where "Serialize (NewGenesisBlock Sum256 now) = Inr encoded"
    by (rule Serialize_genesis)
  then show "\<exists>encoded. Serialize (NewGenesisBlock Sum256 now) = Inr encoded \<and>
         NewBlockchain Sum256 now d =
           Inr \<lparr>tip = Hash (NewGenesisBlock Sum256 now),
                Db = d(blocksBucket \<mapsto> [Hash (NewGenesisBlock Sum256 now) \<mapsto> encoded,
                       bytes_of ''l'' \<mapsto> Hash (NewGenesisBlock Sum256 now)])\<rparr>"
    using NewBlockchain_create [of d Sum256 now] none by blast
qed

text \<open>A database whose bucket holds a tip, and the empty database.\<close>

theorem NewBlockchain_attach_or_create_witness:
  "NewBlockchain third_digest 1700000000 tipped_store = Inr \<lparr>tip = [7], Db = tipped_store\<rparr> \<and>
   (\<exists>encoded. Serialize (NewGenesisBlock third_digest 1700000000) = Inr encoded \<and>
      NewBlockchain third_digest 1700000000 Map.empty =
        Inr \<lparr>tip = Hash (NewGenesisBlock third_digest 1700000000),
             Db = [blocksBucket \<mapsto> [Hash (NewGenesisBlock third_digest 1700000000) \<mapsto> encoded,
                    bytes_of ''l'' \<mapsto> Hash (NewGenesisBlock third_digest 1700000000)]]\<rparr>)"
  using NewBlockchain_attach_or_create [of tipped_store "[bytes_of ''l'' \<mapsto> [7]]" third_digest 1700000000]
    NewBlockchain_attach_or_create [of Map.empty Map.empty third_digest 1700000000]
  by (simp add: tipped_store_def Get_def)

text \<open>
  Claim C7. A call of \<open>AddBlock\<close> that returns has changed the bucket at two keys and
  nowhere else: the hash of the new block now holds its serialized bytes and \<open>l\<close> holds
  that hash, which is never the key \<open>l\<close> itself. Every other key holds what it held, so
  when the hash is new to the bucket every block record written before is unchanged.
\<close>

theorem AddBlock_two_writes:
  assumes "AddBlock Sum256 now data bc = Inr bc'"
  shows "\<exists>b encoded h. Db bc blocksBucket = Some b \<and>
      h = Hash (NewBlock Sum256 now data (Get b (bytes_of ''l''))) \<and>
      Serialize (NewBlock Sum256 now data (Get b (bytes_of ''l''))) = Inr encoded \<and>
      tip bc' = h \<and> h \<noteq> bytes_of ''l'' \<and>
      Db bc' = (Db bc)(blocksBucket \<mapsto> b(h \<mapsto> encoded, bytes_of ''l'' \<mapsto> h)) \<and>
      (\<forall>k. k \<noteq> h \<and> k \<noteq> bytes_of ''l'' \<longrightarrow>
         (b(h \<mapsto> encoded, bytes_of ''l'' \<mapsto> h)) k = b k) \<and>
      (b h = None \<longrightarrow> (\<forall>k v. k \<noteq> bytes_of ''l'' \<and> b k = Some v \<longrightarrow>
         (b(h \<mapsto> encoded, bytes_of ''l'' \<mapsto> h)) k = Some v))"
proof -
  from assms obtain b encoded where b: "Db bc blocksBucket = Some b"
    and e: "Serialize (NewBlock Sum256 now data (Get b (bytes_of ''l''))) = Inr encoded"
    and bc': "bc' = \<lparr>tip = Hash (NewBlock Sum256 now data (Get b (bytes_of ''l''))),
                  Db = (Db bc)(blocksBucket \<mapsto>
                    b(Hash (NewBlock Sum256 now data (Get b (bytes_of ''l''))) \<mapsto> encoded,
                      bytes_of ''l'' \<mapsto> Hash (NewBlock Sum256 now data (Get b (bytes_of ''l'')))))\<rparr>"
    by (rule AddBlock_Inr)
  let ?h = "Hash (NewBlock Sum256 now data (Get b (bytes_of ''l'')))"
  have "?h \<noteq> bytes_of ''l''" by (rule Hash_NewBlock_not_l)
  moreover have "\<forall>k. k \<noteq> ?h \<and> k \<noteq> bytes_of ''l'' \<longrightarrow>
      (b(?h \<mapsto> encoded, bytes_of ''l'' \<mapsto> ?h)) k = b k"
    by simp
  moreover have "b ?h = None \<longrightarrow> (\<forall>k v. k \<noteq> bytes_of ''l'' \<and> b k = Some v \<longrightarrow>
      (b(?h \<mapsto> encoded, bytes_of ''l'' \<mapsto> ?h)) k = Some v)"
    by auto
  ultimately show ?thesis using b e bc' by auto
qed

text \<open>
  The first \<open>AddBlock\<close> of the example chain: the tip moves to the new hash and the
  genesis record stays as it was.
\<close>

theorem AddBlock_two_writes_witness:
  "AddBlock third_digest 1700000060 ''First Block'' chain0 = Inr chain1 \<and>
   tip chain1 = replicate 31 0 @ [56] \<and>
   (\<exists>b encoded. Db chain0 blocksBucket = Some b \<and>
      Db chain1 = (Db chain0)(blocksBucket \<mapsto>
        b(tip chain1 \<mapsto> encoded, bytes_of ''l'' \<mapsto> tip chain1)) \<and>
      (b(tip chain1 \<mapsto> encoded, bytes_of ''l'' \<mapsto> tip chain1)) (tip chain0) = b (tip chain0))"
proof -
  obtain e0' e1 where a: "AddBlock third_digest 1700000060 ''First Block'' chain0 = Inr chain1"
    and c1: "chain1 = \<lparr>tip = replicate 31 0 @ [56],
      Db = [blocksBucket \<mapsto> [replicate 31 0 @ [26] \<mapsto> e0', replicate 31 0 @ [56] \<mapsto> e1,
                              bytes_of ''l'' \<mapsto> replicate 31 0 @ [56]]]\<rparr>"
    using chain1_eq by blast
  obtain e0 where c0: "chain0 = \<lparr>tip = replicate 31 0 @ [26],
               Db = [blocksBucket \<mapsto> [replicate 31 0 @ [26] \<mapsto> e0,
                                       bytes_of ''l'' \<mapsto> replicate 31 0 @ [26]]]\<rparr>"
    using chain0_eq by blast
  have t1: "tip chain1 = replicate 31 0 @ [56]" by (simp add: c1)
  have t0: "tip chain0 = replicate 31 0 @ [26]" by (simp add: c0)
  have ne: "tip chain0 \<noteq> tip chain1 \<and> tip chain0 \<noteq> bytes_of ''l''"
    by (simp add: t0 t1 key_l)
  from AddBlock_two_writes [OF a]
  obtain b encoded h where w: "Db chain0 blocksBucket = Some b"
    "tip chain1 = h"
    "Db chain1 = (Db chain0)(blocksBucket \<mapsto> b(h \<mapsto> encoded, bytes_of ''l'' \<mapsto> h))"
    "\<forall>k. k \<noteq> h \<and> k \<noteq> bytes_of ''l'' \<longrightarrow> (b(h \<mapsto> encoded, bytes_of ''l'' \<mapsto> h)) k = b k"
    by (elim exE conjE)
  have "(b(h \<mapsto> encoded, bytes_of ''l'' \<mapsto> h)) (tip chain0) = b (tip chain0)"
    using w(4) ne unfolding w(2) [symmetric] by (elim allE [of _ "tip chain0"]) simp
  then have inner: "Db chain0 blocksBucket = Some b \<and>
      Db chain1 = (Db chain0)(blocksBucket \<mapsto>
        b(tip chain1 \<mapsto> encoded, bytes_of ''l'' \<mapsto> tip chain1)) \<and>
      (b(tip chain1 \<mapsto> encoded, bytes_of ''l'' \<mapsto> tip chain1)) (tip chain0) = b (tip chain0)"
    using w(1,3) unfolding w(2) by (intro conjI)
  show ?thesis
    by (rule conjI [OF a], rule conjI [OF t1], rule exI [of _ b], rule exI [of _ encoded],
        rule inner)
qed

subsection \<open>Walking a linked chain\<close>

lemma linked_Cons:
  "linked b h (x # xs) \<longleftrightarrow>
     (\<exists>encoded. Serialize x = Inr encoded \<and> b h = Some encoded) \<and> Hash x = h \<and>
     h \<noteq> bytes_of ''l'' \<and> (if xs = [] then PrevBlockHash x = [] else linked b (PrevBlockHash x) xs)"
  by (auto split: sum.splits)

declare linked.simps(2) [simp del]

lemma Next_linked:
  assumes "d blocksBucket = Some b" "linked b h (x # xs)"
  shows "Next \<lparr>currentHash = h, db = d\<rparr> = Inr (x, \<lparr>currentHash = PrevBlockHash x, db = d\<rparr>)"
proof -
  from assms(2) obtain encoded where "Serialize x = Inr encoded" "b h = Some encoded"
    unfolding linked_Cons by blast
  then have "DeseralizeBlock (Get b h) = Inr x"
    by (simp add: Get_def DeseralizeBlock_Serialize)
  then show ?thesis using assms(1) by (simp add: Next_def)
qed

lemma Nexts_linked:
  assumes "d blocksBucket = Some b" "linked b h xs"
  shows "Nexts (length xs) \<lparr>currentHash = h, db = d\<rparr> = Inr xs"
  using assms(2)
proof (induction xs arbitrary: h)
  case Nil
  then show ?case by simp
next
  case (Cons x xs)
  have n: "Next \<lparr>currentHash = h, db = d\<rparr> = Inr (x, \<lparr>currentHash = PrevBlockHash x, db = d\<rparr>)"
    using assms(1) Cons.prems by (rule Next_linked)
  show ?case
  proof (cases "xs = []")
    case True
    then show ?thesis using n by simp
  next
    case False
    then have "linked b (PrevBlockHash x) xs" using Cons.prems unfolding linked_Cons by simp
    then have "Nexts (length xs) \<lparr>currentHash = PrevBlockHash x, db = d\<rparr> = Inr xs"
      by (rule Cons.IH)
    then show ?thesis using n by simp
  qed
qed

lemma linked_preserved:
  assumes "linked b h xs" "b k = None"
  shows "linked (b(k \<mapsto> v, bytes_of ''l'' \<mapsto> w)) h xs"
  using assms(1)
proof (induction xs arbitrary: h)
  case Nil
  then show ?case by simp
next
  case (Cons x xs)
  from Cons.prems obtain encoded where e: "Serialize x = Inr encoded" "b h = Some encoded"
    and h: "Hash x = h" "h \<noteq> bytes_of ''l''"
    and rest: "if xs = [] then PrevBlockHash x = [] else linked b (PrevBlockHash x) xs"
    unfolding linked_Cons by blast
  have "h \<noteq> k" using e(2) assms(2) by auto
  then have "(b(k \<mapsto> v, bytes_of ''l'' \<mapsto> w)) h = Some encoded"
    using e(2) h(2) by simp
  moreover have "if xs = [] then PrevBlockHash x = []
      else linked (b(k \<mapsto> v, bytes_of ''l'' \<mapsto> w)) (PrevBlockHash x) xs"
  proof (cases "xs = []")
    case True
    then show ?thesis using rest by simp
  next
    case False
    then have "linked b (PrevBlockHash x) xs" using rest by simp
    then have "linked (b(k \<mapsto> v, bytes_of ''l'' \<mapsto> w)) (PrevBlockHash x) xs"
      by (rule Cons.IH)
    then show ?thesis using False by simp
  qed
  ultimately show ?case using e(1) h unfolding linked_Cons by blast
qed

lemma linked_links:
  assumes "linked b h xs"
  shows "(\<forall>i. Suc i < length xs \<longrightarrow> PrevBlockHash (xs ! i) = Hash (xs ! Suc i)) \<and>
         PrevBlockHash (last xs) = [] \<and> Hash (hd xs) = h \<and> xs \<noteq> []"
  using assms
proof (induction xs arbitrary: h)
  case Nil
  then show ?case by simp
next
  case (Cons x xs)
  have h: "Hash x = h" using Cons.prems unfolding linked_Cons by blast
  show ?case
  proof (cases "xs = []")
    case True
    then show ?thesis using Cons.prems h unfolding linked_Cons by simp
  next
    case False
    then have l: "linked b (PrevBlockHash x) xs" using Cons.prems unfolding linked_Cons by simp
    note ih = Cons.IH [OF l]
    have "PrevBlockHash ((x # xs) ! i) = Hash ((x # xs) ! Suc i)" if "Suc i < length (x # xs)" for i
    proof (cases i)
      case 0
      then show ?thesis using ih False by (simp add: hd_conv_nth)
    next
      case (Suc j)
      then show ?thesis using ih that by simp
    qed
    then show ?thesis using ih h False by simp
  qed
qed

subsection \<open>The chain that AddBlock builds\<close>

lemma genesis_inv:
  assumes "d blocksBucket = None" "NewBlockchain H now d = Inr bc"
  shows "chain_inv bc [NewGenesisBlock H now]"
proof -
  let ?g = "NewGenesisBlock H now"
  obtain encoded where e: "Serialize ?g = Inr encoded"
    by (rule Serialize_genesis)
  have bc: "bc = \<lparr>tip = Hash ?g,
      Db = d(blocksBucket \<mapsto> [Hash ?g \<mapsto> encoded, bytes_of ''l'' \<mapsto> Hash ?g])\<rparr>"
    using NewBlockchain_create [of d H now encoded] assms e by simp
  have nl: "Hash ?g \<noteq> bytes_of ''l''"
    unfolding NewGenesisBlock_def by (rule Hash_NewBlock_not_l)
  then have "linked [Hash ?g \<mapsto> encoded, bytes_of ''l'' \<mapsto> Hash ?g] (Hash ?g) [?g]"
    unfolding linked_Cons using e by (simp add: genesis_fields)
  then show ?thesis by (simp add: chain_inv_def bc)
qed

lemma AddBlock_inv:
  assumes "chain_inv bc xs" "AddBlock H now data bc = Inr bc'" "Db bc blocksBucket = Some b"
    "b (tip bc') = None"
  shows "chain_inv bc' (NewBlock H now data (tip bc) # xs)"
proof -
  from assms(2) obtain b0 encoded where b0: "Db bc blocksBucket = Some b0"
    and e: "Serialize (NewBlock H now data (Get b0 (bytes_of ''l''))) = Inr encoded"
    and bc': "bc' = \<lparr>tip = Hash (NewBlock H now data (Get b0 (bytes_of ''l''))),
                  Db = (Db bc)(blocksBucket \<mapsto>
                    b0(Hash (NewBlock H now data (Get b0 (bytes_of ''l''))) \<mapsto> encoded,
                      bytes_of ''l'' \<mapsto> Hash (NewBlock H now data (Get b0 (bytes_of ''l'')))))\<rparr>"
    by (rule AddBlock_Inr)
  have bb: "b0 = b" using b0 assms(3) by simp
  have l: "b (bytes_of ''l'') = Some (tip bc)" and old: "linked b (tip bc) xs"
    using assms(1,3) by (simp_all add: chain_inv_def)
  then have last: "Get b (bytes_of ''l'') = tip bc" by (simp add: Get_def)
  let ?x = "NewBlock H now data (tip bc)"
  have tip': "tip bc' = Hash ?x" using bc' by (simp add: bb last)
  have fresh: "b (Hash ?x) = None" using assms(4) tip' by simp
  let ?b' = "b(Hash ?x \<mapsto> encoded, bytes_of ''l'' \<mapsto> Hash ?x)"
  have db': "Db bc' blocksBucket = Some ?b'" using bc' by (simp add: bb last)
  have nl: "Hash ?x \<noteq> bytes_of ''l''" by (rule Hash_NewBlock_not_l)
  have keep: "linked ?b' (tip bc) xs" using old fresh by (rule linked_preserved)
  have ne: "xs \<noteq> []" using old by (cases xs) simp_all
  have prev: "PrevBlockHash ?x = tip bc" by (simp add: NewBlock_eq)
  have "?b' (Hash ?x) = Some encoded" using nl by simp
  then have "linked ?b' (Hash ?x) (?x # xs)"
    unfolding linked_Cons using e keep ne nl by (simp add: bb last prev)
  then show ?thesis using db' nl by (simp add: chain_inv_def tip')
qed

lemma AddBlocks_inv:
  assumes "chain_inv bc xs" "AddBlocks H inputs bc = Inr bc'" "fresh_hashes H inputs bc"
  shows "\<exists>ys. length ys = length inputs \<and> chain_inv bc' (ys @ xs)"
  using assms
proof (induction inputs arbitrary: bc xs)
  case Nil
  then show ?case by simp
next
  case (Cons inp inputs)
  obtain now data where inp: "inp = (now, data)" by (cases inp)
  from Cons.prems(3) obtain bc1 b where s1: "AddBlock H now data bc = Inr bc1"
    and b: "Db bc blocksBucket = Some b" and fresh: "b (tip bc1) = None"
    and rest: "fresh_hashes H inputs bc1"
    unfolding inp by (auto split: sum.splits option.splits)
  have inv1: "chain_inv bc1 (NewBlock H now data (tip bc) # xs)"
    using Cons.prems(1) s1 b fresh by (rule AddBlock_inv)
  have "AddBlocks H inputs bc1 = Inr bc'" using Cons.prems(2) s1 by (simp add: inp)
  from Cons.IH [OF inv1 this rest]
  obtain ys where ys: "length ys = length inputs"
    "chain_inv bc' (ys @ NewBlock H now data (tip bc) # xs)"
    by blast
  then have "length (ys @ [NewBlock H now data (tip bc)]) = length (inp # inputs)"
    "chain_inv bc' ((ys @ [NewBlock H now data (tip bc)]) @ xs)"
    by simp_all
  then show ?case by blast
qed

text \<open>
  Claim C5. Start from a database without the bucket, let \<open>NewBlockchain\<close> create the
  genesis block and call \<open>AddBlock\<close> once for each of \<open>N\<close> inputs, no call failing and
  each mining a hash that is new to the bucket. Then \<open>N + 1\<close> calls of \<open>Next\<close> from the
  iterator return \<open>N + 1\<close> blocks, the first under the tip; the previous hash of each is
  the hash of the one returned after it; and the last is the genesis block, whose
  previous hash is empty.
\<close>

theorem chain_linkage:
  assumes "d blocksBucket = None"
    and "NewBlockchain Sum256 now d = Inr bc0"
    and "AddBlocks Sum256 inputs bc0 = Inr bc"
    and "fresh_hashes Sum256 inputs bc0"
  shows "\<exists>blocks. Nexts (length inputs + 1) (Iterator bc) = Inr blocks \<and>
           length blocks = length inputs + 1 \<and>
           (\<forall>i < length inputs. PrevBlockHash (blocks ! i) = Hash (blocks ! (i + 1))) \<and>
           PrevBlockHash (last blocks) = [] \<and>
           last blocks = NewGenesisBlock Sum256 now \<and>
           Hash (hd blocks) = tip bc"
proof -
  have "chain_inv bc0 [NewGenesisBlock Sum256 now]"
    using assms(1,2) by (rule genesis_inv)
  from AddBlocks_inv [OF this assms(3,4)]
  obtain ys where ys: "length ys = length inputs"
    and inv: "chain_inv bc (ys @ [NewGenesisBlock Sum256 now])"
    by blast
  let ?blocks = "ys @ [NewGenesisBlock Sum256 now]"
  from inv obtain b where b: "Db bc blocksBucket = Some b" and l: "linked b (tip bc) ?blocks"
    by (auto simp: chain_inv_def split: option.splits)
  have "Nexts (length ?blocks) \<lparr>currentHash = tip bc, db = Db bc\<rparr> = Inr ?blocks"
    using b l by (rule Nexts_linked)
  then have n: "Nexts (length inputs + 1) (Iterator bc) = Inr ?blocks"
    by (simp add: Iterator_def ys)
  have links: "\<forall>i. Suc i < length ?blocks \<longrightarrow> PrevBlockHash (?blocks ! i) = Hash (?blocks ! Suc i)"
    and e: "PrevBlockHash (last ?blocks) = []" and h: "Hash (hd ?blocks) = tip bc"
    using linked_links [OF l] by blast+
  have "\<forall>i < length inputs. PrevBlockHash (?blocks ! i) = Hash (?blocks ! (i + 1))"
    using links ys by simp
  then show ?thesis using n e h ys by (intro exI [of _ ?blocks]) simp
qed

text \<open>
  The example chain: three calls of \<open>Next\<close> return the second block, the first block
  and the genesis block.
\<close>

theorem chain_linkage_witness:
  "\<exists>blocks. Nexts 3 (Iterator chain2) = Inr blocks \<and> length blocks = 3 \<and>
     PrevBlockHash (blocks ! 0) = Hash (blocks ! 1) \<and>
     PrevBlockHash (blocks ! 1) = Hash (blocks ! 2) \<and>
     PrevBlockHash (blocks ! 2) = [] \<and>
     blocks ! 2 = NewGenesisBlock third_digest 1700000000 \<and>
     Hash (blocks ! 0) = tip chain2"
proof -
  define inputs :: "(int64 \<times> string) list"
    where "inputs = [(1700000060, ''First Block''), (1700000120, ''Second Block'')]"
  have c0: "NewBlockchain third_digest 1700000000 Map.empty = Inr chain0"
    using chain0_eq by blast
  have none: "(Map.empty :: DB) blocksBucket = None" by simp
  have three: "length inputs + 1 = 3" "length inputs = 2" by (simp_all add: inputs_def)
  from chain_linkage [OF none c0 example_run [folded inputs_def]]
  obtain blocks where n': "Nexts (length inputs + 1) (Iterator chain2) = Inr blocks"
    and len': "length blocks = length inputs + 1"
    and links: "\<forall>i < length inputs. PrevBlockHash (blocks ! i) = Hash (blocks ! (i + 1))"
    and e: "PrevBlockHash (last blocks) = []"
    and g: "last blocks = NewGenesisBlock third_digest 1700000000"
    and h: "Hash (hd blocks) = tip chain2"
    by (elim exE conjE)
  have n: "Nexts 3 (Iterator chain2) = Inr blocks" using n' by (simp only: three(1))
  have len: "length blocks = 3" using len' by (simp only: three(1))
  then obtain x y z where b: "blocks = [x, y, z]"
    by (auto simp: numeral_3_eq_3 length_Suc_conv)
  have l0: "PrevBlockHash (blocks ! 0) = Hash (blocks ! (0 + 1))"
    using links unfolding three(2) by (elim allE [of _ 0]) simp
  have l1: "PrevBlockHash (blocks ! 1) = Hash (blocks ! (1 + 1))"
    using links unfolding three(2) by (elim allE [of _ 1]) simp
  show ?thesis
    using n e g h l0 l1 unfolding b by (intro exI [of _ "[x, y, z]"]) simp
qed

end
